theory Spec2Isabelle
  imports Main "HOL-Library.Word"
begin

section \<open>The value type consumed by the tape\<close>

text \<open>
  The tape of \<^verbatim>\<open>src/autodiff/autodiff.cpp\<close> is a template over a value type
  \<^verbatim>\<open>Value\<close>. Its widest instantiation is a dynamically sized array of scalar lanes;
  a plain \<^verbatim>\<open>float\<close> is the array of size one. A value is modelled as the list of
  its lanes, over any lane type with \<open>0\<close>, \<open>1\<close>, \<open>+\<close> and \<open>*\<close>. No law of arithmetic is
  assumed of the lanes, so a lane type may contain \<open>nan\<close> and \<open>inf\<close>.
\<close>

type_synonym 'a Value = "'a list"

type_synonym Mask = "bool list"

text \<open>
  Modelled from the spec: the array layer (\<^verbatim>\<open>enoki/dynamic.h\<close>: the operators,
  \<^verbatim>\<open>fmadd\<close>, \<^verbatim>\<open>eq\<close>, \<^verbatim>\<open>select\<close>, \<^verbatim>\<open>zero\<close>, \<^verbatim>\<open>full\<close>, \<^verbatim>\<open>hsum\<close>,
  \<^verbatim>\<open>gather\<close>, \<^verbatim>\<open>scatter\<close>, \<^verbatim>\<open>scatter_add\<close>) is not part of the sources at hand.
  The spec asks for elementwise arithmetic, \<open>fmadd(a,b,c) = a*b+c\<close>, broadcasting of a
  scalar, a horizontal sum, elementwise \<open>==\<close> and a masked \<open>select\<close>. An operand of
  size one is broadcast; the result has the largest size of the operands. Operands whose
  sizes are neither equal nor one are outside the contract of the array layer: \<open>lane\<close>
  reads them with \<open>!\<close>, which says nothing about a lane that is not there.
\<close>

definition lane :: "'b list \<Rightarrow> nat \<Rightarrow> 'b" where
  "lane v i = (if length v = 1 then v ! 0 else v ! i)"

definition vmap2 :: "('b \<Rightarrow> 'c \<Rightarrow> 'd) \<Rightarrow> 'b list \<Rightarrow> 'c list \<Rightarrow> 'd list" where
  "vmap2 f a b = map (\<lambda>i. f (lane a i) (lane b i)) [0..<max (length a) (length b)]"

definition vmap3 ::
  "('b \<Rightarrow> 'c \<Rightarrow> 'd \<Rightarrow> 'e) \<Rightarrow> 'b list \<Rightarrow> 'c list \<Rightarrow> 'd list \<Rightarrow> 'e list" where
  "vmap3 f a b c =
     map (\<lambda>i. f (lane a i) (lane b i) (lane c i))
       [0..<max (length a) (max (length b) (length c))]"

definition zero :: "nat \<Rightarrow> 'a::zero Value" where
  "zero n = replicate n 0"

definition full :: "'a \<Rightarrow> nat \<Rightarrow> 'a Value" where
  "full x n = replicate n x"

definition mul :: "'a::times Value \<Rightarrow> 'a Value \<Rightarrow> 'a Value" where
  "mul a b = vmap2 (\<lambda>x y. x * y) a b"

definition add :: "'a::plus Value \<Rightarrow> 'a Value \<Rightarrow> 'a Value" where
  "add a b = vmap2 (\<lambda>x y. x + y) a b"

definition fmadd :: "'a::{plus,times} Value \<Rightarrow> 'a Value \<Rightarrow> 'a Value \<Rightarrow> 'a Value" where
  "fmadd a b c = vmap3 (\<lambda>x y z. x * y + z) a b c"

definition eq :: "'a Value \<Rightarrow> 'a Value \<Rightarrow> Mask" where
  "eq a b = vmap2 (\<lambda>x y. x = y) a b"

definition mask_or :: "Mask \<Rightarrow> Mask \<Rightarrow> Mask" where
  "mask_or m1 m2 = vmap2 (\<lambda>x y. x \<or> y) m1 m2"

definition select :: "Mask \<Rightarrow> 'a Value \<Rightarrow> 'a Value \<Rightarrow> 'a Value" where
  "select m a b = vmap3 (\<lambda>c x y. if c then x else y) m a b"

definition hsum :: "'a::{zero,plus} Value \<Rightarrow> 'a Value" where
  "hsum v = [fold (\<lambda>x s. s + x) v 0]"

subsection \<open>safe_mul and safe_fmadd\<close>

text \<open>
  The branch for arrays that are not CUDA arrays. \<^verbatim>\<open>Value zero = scalar_t<Value>(0)\<close>
  is the array of size one holding \<open>0\<close>.
\<close>

definition safe_mul :: "'a::{zero,times} Value \<Rightarrow> 'a Value \<Rightarrow> 'a Value" where
  "safe_mul value1 value2 =
     (let tentative = mul value1 value2;
          zero = [0];
          is_zero = mask_or (eq value1 zero) (eq value2 zero)
      in select is_zero zero tentative)"

definition safe_fmadd ::
  "'a::{zero,plus,times} Value \<Rightarrow> 'a Value \<Rightarrow> 'a Value \<Rightarrow> 'a Value" where
  "safe_fmadd value1 value2 value3 =
     (let tentative = fmadd value1 value2 value3;
          zero = [0];
          is_zero = mask_or (eq value1 zero) (eq value2 zero)
      in select is_zero value3 tentative)"


text \<open>
  Modelled from the spec: \<^verbatim>\<open>gather\<close>, \<^verbatim>\<open>scatter\<close> and \<^verbatim>\<open>scatter_add\<close> of the array
  layer, lane by lane in increasing lane order, so that of two lanes scattered to one
  position the later one is written last. Offsets are positions of the buffer; an
  offset outside the buffer is outside the contract of the array layer (the list update
  of the model then leaves the buffer as it is).
\<close>

definition gather :: "'a::zero Value \<Rightarrow> int list \<Rightarrow> Mask \<Rightarrow> 'a Value" where
  "gather src offset msk =
     map (\<lambda>i. if lane msk i then src ! nat (lane offset i) else 0)
       [0..<max (length offset) (length msk)]"

definition scatter :: "'a Value \<Rightarrow> 'a Value \<Rightarrow> int list \<Rightarrow> Mask \<Rightarrow> 'a Value" where
  "scatter tgt val offset msk =
     fold (\<lambda>i t. if lane msk i then t[nat (lane offset i) := lane val i] else t)
       [0..<max (length val) (max (length offset) (length msk))] tgt"

definition scatter_add ::
  "'a::plus Value \<Rightarrow> 'a Value \<Rightarrow> int list \<Rightarrow> Mask \<Rightarrow> 'a Value" where
  "scatter_add tgt val offset msk =
     fold (\<lambda>i t. if lane msk i
                  then t[nat (lane offset i) := t ! nat (lane offset i) + lane val i]
                  else t)
       [0..<max (length val) (max (length offset) (length msk))] tgt"

section \<open>The tape: nodes, edges and the store\<close>

type_synonym Index = "32 word"

text \<open>
  The pull-back objects of the non-pointwise operations. \<^verbatim>\<open>append_scatter\<close> and
  \<^verbatim>\<open>append_scatter_add\<close> declare the same local struct \<^verbatim>\<open>Scatter\<close>.
\<close>

datatype Special =
    Gather (g_offset: "int list") (g_mask: Mask) (g_size: nat) (g_permute: bool)
  | Scatter (s_offset: "int list") (s_mask: Mask)

text \<open>
  An edge; the \<^verbatim>\<open>next\<close> pointer of the source is the tail of the list the edge is in.
  An edge built from a weight has no special, an edge built from a special has the
  default-constructed (empty) weight.
\<close>

record 'a Edge =
  source :: Index
  weight :: "'a Value"
  special :: "Special option"

record 'a Node =
  label :: string
  grad :: "'a Value"
  edges :: "'a Edge list"
  ref_count :: "32 word"
  node_size :: "32 word"

record 'a Detail =
  node_counter :: Index
  node_counter_last :: Index
  edge_contractions :: Index
  edge_contractions_last :: Index
  edge_merges :: Index
  edge_merges_last :: Index
  nodes :: "Index \<rightharpoonup> 'a Node"
  prefix :: "string list"
  scatter_gather_index :: "Index option"
  scatter_gather_size :: nat
  scatter_gather_permute :: bool
  log_level :: "32 word"
  contract_edges :: bool
  scheduled :: "Index set"

text \<open>
  The exceptions of the source, by the place that throws them, and the two
  \<^verbatim>\<open>assert\<close>s (the model is of a build that checks them).
\<close>

datatype error =
    UnknownNode Index
  | FreeUnknownNode Index
  | UseAfterFree Index
  | NoGradient
  | PrefixUnderflow
  | AssertionFailed

definition Edge_weight :: "Index \<Rightarrow> 'a Value \<Rightarrow> 'a Edge" where
  "Edge_weight src w = \<lparr>source = src, weight = w, special = None\<rparr>"

definition Edge_special :: "Index \<Rightarrow> Special \<Rightarrow> 'a Edge" where
  "Edge_special src sp = \<lparr>source = src, weight = [], special = Some sp\<rparr>"

definition is_special :: "'a Edge \<Rightarrow> bool" where
  "is_special e = (special e \<noteq> None)"

text \<open>\<^verbatim>\<open>Node(size, label)\<close>: the size is cast to 32 bits, the gradient is left
  default-constructed, the reference count starts at 0.\<close>

definition Node_new :: "nat \<Rightarrow> string \<Rightarrow> 'a Node" where
  "Node_new sz lbl =
     \<lparr>label = lbl, grad = [], edges = [], ref_count = 0, node_size = of_nat sz\<rparr>"

definition is_scalar :: "'a Node \<Rightarrow> bool" where
  "is_scalar n = (node_size n = 1)"

definition degree :: "'a Node \<Rightarrow> Index" where
  "degree n = fold (\<lambda>e result. result + 1) (edges n) 0"

definition has_special :: "'a Node \<Rightarrow> bool" where
  "has_special n = fold (\<lambda>e result. result \<or> is_special e) (edges n) False"

text \<open>\<^verbatim>\<open>Node::append_edge\<close> walks to the last edge and links the new one behind it.\<close>

fun link_last :: "'a Edge list \<Rightarrow> 'a Edge \<Rightarrow> 'a Edge list" where
  "link_last [] edge = [edge]"
| "link_last (cur # rest) edge = cur # link_last rest edge"

definition Node_append_edge :: "'a Node \<Rightarrow> 'a Edge \<Rightarrow> 'a Node" where
  "Node_append_edge n edge = n\<lparr>edges := link_last (edges n) edge\<rparr>"

definition Detail_new :: "'a Detail" where
  "Detail_new =
     \<lparr>node_counter = 1, node_counter_last = 1,
      edge_contractions = 0, edge_contractions_last = 0,
      edge_merges = 0, edge_merges_last = 0,
      nodes = Map.empty, prefix = [],
      scatter_gather_index = None, scatter_gather_size = 0,
      scatter_gather_permute = False,
      log_level = 1, contract_edges = True, scheduled = {}\<rparr>"

definition node :: "'a Detail \<Rightarrow> Index \<Rightarrow> error + 'a Node" where
  "node d index =
     (case nodes d index of None \<Rightarrow> Inl (UnknownNode index) | Some n \<Rightarrow> Inr n)"

definition put_node :: "Index \<Rightarrow> 'a Node \<Rightarrow> 'a Detail \<Rightarrow> 'a Detail" where
  "put_node index n d = d\<lparr>nodes := (nodes d)(index \<mapsto> n)\<rparr>"


section \<open>Reference counts\<close>

definition inc_ref :: "Index \<Rightarrow> 'a Detail \<Rightarrow> error + 'a Detail" where
  "inc_ref index d =
     (if index = 0 then Inr d
      else case node d index of
             Inl e \<Rightarrow> Inl e
           | Inr n \<Rightarrow> Inr (put_node index (n\<lparr>ref_count := ref_count n + 1\<rparr>) d))"

text \<open>
  \<^verbatim>\<open>dec_ref\<close> and \<^verbatim>\<open>free_node\<close> call each other; \<open>free_edges\<close> is the loop of
  \<^verbatim>\<open>free_node\<close> over the edge list of the node. The list cannot change while the loop
  runs: the node is only erased after the loop, and a nested \<^verbatim>\<open>dec_ref\<close> of the node
  itself finds the count at zero and throws.
\<close>

function dec_ref :: "Index \<Rightarrow> 'a Detail \<Rightarrow> error + 'a Detail"
  and free_node :: "Index \<Rightarrow> 'a Detail \<Rightarrow> error + 'a Detail"
  and free_edges :: "'a Edge list \<Rightarrow> 'a Detail \<Rightarrow> error + 'a Detail" where
  "dec_ref index d =
     (if index = 0 then Inr d
      else case node d index of
             Inl e \<Rightarrow> Inl e
           | Inr n \<Rightarrow>
               if ref_count n = 0 then Inl (UseAfterFree index)
               else if ref_count n - 1 = 0
               then free_node index (put_node index (n\<lparr>ref_count := ref_count n - 1\<rparr>) d)
               else Inr (put_node index (n\<lparr>ref_count := ref_count n - 1\<rparr>) d))"
| "free_node index d =
     (case nodes d index of
        None \<Rightarrow> Inl (FreeUnknownNode index)
      | Some n \<Rightarrow>
          (case free_edges (edges n) d of
             Inl e \<Rightarrow> Inl e
           | Inr d' \<Rightarrow> Inr (d'\<lparr>nodes := (nodes d')(index := None)\<rparr>)))"
| "free_edges [] d = Inr d"
| "free_edges (edge # rest) d =
     (case dec_ref (source edge) d of
        Inl e \<Rightarrow> Inl e
      | Inr d' \<Rightarrow> free_edges rest d')"
  by pat_completeness auto



text \<open>
  Termination: every \<^verbatim>\<open>dec_ref\<close> that does not throw takes one from the sum of all
  reference counts of the store, and erasing a node does not add to it.
\<close>

definition total_refs :: "'a Detail \<Rightarrow> nat" where
  "total_refs d = (\<Sum>i\<in>UNIV. case nodes d i of None \<Rightarrow> 0 | Some n \<Rightarrow> unat (ref_count n))"

lemma total_refs_split:
  "total_refs d = (case nodes d i of None \<Rightarrow> 0 | Some n \<Rightarrow> unat (ref_count n))
     + (\<Sum>j\<in>UNIV - {i}. case nodes d j of None \<Rightarrow> 0 | Some n \<Rightarrow> unat (ref_count n))"
  unfolding total_refs_def by (simp add: sum.remove [of UNIV i])

lemma total_refs_put_node:
  "total_refs (put_node i n d) = unat (ref_count n)
     + (\<Sum>j\<in>UNIV - {i}. case nodes d j of None \<Rightarrow> 0 | Some n \<Rightarrow> unat (ref_count n))"
  by (subst total_refs_split [of _ i]) (auto simp: put_node_def intro: sum.cong)

lemma total_refs_erase:
  "total_refs (d\<lparr>nodes := (nodes d)(i := None)\<rparr>) \<le> total_refs d"
proof -
  have "total_refs (d\<lparr>nodes := (nodes d)(i := None)\<rparr>)
      = (\<Sum>j\<in>UNIV - {i}. case nodes d j of None \<Rightarrow> 0 | Some n \<Rightarrow> unat (ref_count n))"
    by (subst total_refs_split [of _ i]) (auto intro: sum.cong)
  then show ?thesis by (simp add: total_refs_split [of d i])
qed

lemma total_refs_dec:
  assumes "nodes d i = Some n" "ref_count n \<noteq> 0"
  shows "total_refs (put_node i (n\<lparr>ref_count := ref_count n - 1\<rparr>) d) < total_refs d"
proof -
  have "0 < unat (ref_count n)"
    using assms(2) by (simp add: unat_gt_0)
  then have "unat (ref_count n - 1) < unat (ref_count n)"
    using assms(2) by (simp add: unat_minus_one)
  then show ?thesis
    using assms(1) by (simp add: total_refs_put_node total_refs_split [of d i])
qed

lemma dec_ref_total_refs_partial:
  "dec_ref_free_node_free_edges_dom (Inl (i, d)) \<Longrightarrow>
     dec_ref i d = Inr d' \<Longrightarrow> total_refs d' \<le> total_refs (d::'a Detail)"
  "dec_ref_free_node_free_edges_dom (Inr (Inl (i, d))) \<Longrightarrow>
     free_node i d = Inr d' \<Longrightarrow> total_refs d' \<le> total_refs d"
  "dec_ref_free_node_free_edges_dom (Inr (Inr (es, d))) \<Longrightarrow>
     free_edges es d = Inr d' \<Longrightarrow> total_refs d' \<le> total_refs d"
proof (induction i d and i d and es d arbitrary: d' and d' and d'
       rule: dec_ref_free_node_free_edges.pinduct)
  case (1 index d)
  show ?case
  proof (cases "index = 0")
    case True
    with 1(1,3) show ?thesis by (simp add: dec_ref.psimps)
  next
    case False
    from 1(3) False obtain n where n: "node d index = Inr n" "ref_count n \<noteq> 0"
      by (auto simp: dec_ref.psimps [OF 1(1)] split: sum.splits if_splits)
    then have nd: "nodes d index = Some n"
      by (auto simp: node_def split: option.splits)
    let ?d1 = "put_node index (n\<lparr>ref_count := ref_count n - 1\<rparr>) d"
    have lt: "total_refs ?d1 < total_refs d" by (rule total_refs_dec [OF nd n(2)])
    show ?thesis
    proof (cases "ref_count n - 1 = 0")
      case True
      with 1(3) False n have "free_node index ?d1 = Inr d'"
        by (simp add: dec_ref.psimps [OF 1(1)])
      from 1(2) [OF False n(1) n(2) True this] lt show ?thesis by simp
    next
      case F2: False
      with 1(3) False n have "d' = ?d1"
        by (simp add: dec_ref.psimps [OF 1(1)])
      with lt show ?thesis by simp
    qed
  qed
next
  case (2 index d)
  from 2(3) obtain n d1 where n: "nodes d index = Some n" "free_edges (edges n) d = Inr d1"
      "d' = d1\<lparr>nodes := (nodes d1)(index := None)\<rparr>"
    by (auto simp: free_node.psimps [OF 2(1)] split: option.splits sum.splits)
  from 2(2) [OF n(1) n(2)] have "total_refs d1 \<le> total_refs d" .
  with total_refs_erase [of d1 index] n(3) show ?case by simp
next
  case (3 d)
  then show ?case by (simp add: free_edges.psimps)
next
  case (4 edge rest d)
  from 4(4) obtain d1 where d1: "dec_ref (source edge) d = Inr d1" "free_edges rest d1 = Inr d'"
    using 4(1) by (auto simp: free_edges.psimps split: sum.splits)
  from 4(2) [OF d1(1)] 4(3) [OF d1(1) d1(2)] show ?case by simp
qed

termination dec_ref
proof (relation "inv_image (less_than <*lex*> less_than <*lex*> less_than)
    (\<lambda>x. case x of
        Inl (i, d) \<Rightarrow> (total_refs d, 0::nat, 0::nat)
      | Inr (Inl (i, d)) \<Rightarrow> (total_refs d, 2, 0)
      | Inr (Inr (es, d)) \<Rightarrow> (total_refs d, 1, length es))", goal_cases)
  case 1
  show ?case by (intro wf_inv_image wf_lex_prod wf_less_than)
next
  case (2 index d n)
  then have "nodes d index = Some n" by (auto simp: node_def split: option.splits)
  from total_refs_dec [OF this 2(3)] show ?case by simp
next
  case (3 index d n)
  show ?case by simp
next
  case (4 edge rest d)
  show ?case by simp
next
  case (5 edge rest d d')
  from dec_ref_total_refs_partial(1) [OF 5(2) 5(1)] show ?case by auto
qed

declare dec_ref.simps [simp del] free_node.simps [simp del]



section \<open>Scheduling: the depth-first search\<close>

text \<open>
  \<^verbatim>\<open>Detail::dfs\<close>. The test against the scheduled set comes first; \<open>dfs_edges\<close> is
  the loop over the edge list of the node. Labels of gradient arrays
  (\<^verbatim>\<open>enoki::set_label\<close>) are diagnostics of the array layer and are left out.
\<close>

function dfs :: "Index \<Rightarrow> bool \<Rightarrow> 'a::zero Detail \<Rightarrow> error + 'a Detail"
  and dfs_edges :: "'a Edge list \<Rightarrow> bool \<Rightarrow> 'a::zero Detail \<Rightarrow> error + 'a Detail" where
  "dfs k clear_grad d =
     (if k \<in> scheduled d then Inr d
      else case node (d\<lparr>scheduled := insert k (scheduled d)\<rparr>) k of
             Inl e \<Rightarrow> Inl e
           | Inr n \<Rightarrow>
               dfs_edges (edges n) clear_grad
                 (if clear_grad
                  then put_node k (n\<lparr>grad := zero (unat (node_size n))\<rparr>)
                         (d\<lparr>scheduled := insert k (scheduled d)\<rparr>)
                  else d\<lparr>scheduled := insert k (scheduled d)\<rparr>))"
| "dfs_edges [] clear_grad d = Inr d"
| "dfs_edges (edge # rest) clear_grad d =
     (case dfs (source edge) clear_grad d of
        Inl e \<Rightarrow> Inl e
      | Inr d' \<Rightarrow> dfs_edges rest clear_grad d')"
  by pat_completeness auto



text \<open>
  Termination: a call that goes on inserts an index that was not scheduled, the set never
  shrinks, and there are finitely many 32-bit indices.
\<close>

lemma scheduled_put_node [simp]: "scheduled (put_node i n d) = scheduled d"
  by (simp add: put_node_def)

lemma dfs_scheduled_partial:
  "dfs_dfs_edges_dom (Inl (k, cg, d)) \<Longrightarrow>
     dfs k cg d = Inr d' \<Longrightarrow> scheduled (d::'a::zero Detail) \<subseteq> scheduled d'"
  "dfs_dfs_edges_dom (Inr (es, cg, d)) \<Longrightarrow>
     dfs_edges es cg d = Inr d' \<Longrightarrow> scheduled d \<subseteq> scheduled d'"
proof (induction k cg d and es cg d arbitrary: d' and d' rule: dfs_dfs_edges.pinduct)
  case (1 k cg d)
  show ?case
  proof (cases "k \<in> scheduled d")
    case True
    with 1(1,3) show ?thesis by (simp add: dfs.psimps)
  next
    case False
    let ?d1 = "d\<lparr>scheduled := insert k (scheduled d)\<rparr>"
    from 1(3) False obtain n where n: "node ?d1 k = Inr n"
      and r: "dfs_edges (edges n) cg
                (if cg then put_node k (n\<lparr>grad := zero (unat (node_size n))\<rparr>) ?d1 else ?d1) = Inr d'"
      by (auto simp: dfs.psimps [OF 1(1)] split: sum.splits)
    from 1(2) [OF False n r] show ?thesis by (auto split: if_splits)
  qed
next
  case (2 cg d)
  then show ?case by (simp add: dfs_edges.psimps)
next
  case (3 edge rest cg d)
  from 3(4) 3(1) obtain d1 where d1: "dfs (source edge) cg d = Inr d1"
      "dfs_edges rest cg d1 = Inr d'"
    by (auto simp: dfs_edges.psimps split: sum.splits)
  from 3(2) [OF d1(1)] 3(3) [OF d1(1) d1(2)] show ?case by blast
qed

lemma card_unscheduled_insert:
  "k \<notin> (S::Index set) \<Longrightarrow> card (- insert k S) < card (- S)"
  by (rule psubset_card_mono) auto

lemma card_unscheduled_mono:
  "(S::Index set) \<subseteq> T \<Longrightarrow> card (- T) \<le> card (- S)"
  by (rule card_mono) auto

termination dfs
proof (relation "inv_image (less_than <*lex*> less_than)
    (\<lambda>x. case x of
        Inl (k, cg, d) \<Rightarrow> (card (- scheduled d), 0::nat)
      | Inr (es, cg, d) \<Rightarrow> (card (- scheduled d), Suc (length es)))", goal_cases)
  case 1
  show ?case by (intro wf_inv_image wf_lex_prod wf_less_than)
next
  case (2 k cg d n)
  then show ?case by (auto simp: card_unscheduled_insert)
next
  case (3 edge rest cg d)
  show ?case by simp
next
  case (4 edge rest cg d d')
  from dfs_scheduled_partial(1) [OF 4(2) 4(1)] have "card (- scheduled d') \<le> card (- scheduled d)"
    by (rule card_unscheduled_mono)
  then show ?case by auto
qed

declare dfs.simps [simp del]



definition set_gradient :: "Index \<Rightarrow> 'a Value \<Rightarrow> 'a::zero Detail \<Rightarrow> error + 'a Detail" where
  "set_gradient index val d =
     (if index = 0 then Inl NoGradient
      else case dfs index True d of
             Inl e \<Rightarrow> Inl e
           | Inr d1 \<Rightarrow>
               (case node d1 index of
                  Inl e \<Rightarrow> Inl e
                | Inr n \<Rightarrow> Inr (put_node index (n\<lparr>grad := val\<rparr>) d1)))"

definition gradient :: "Index \<Rightarrow> 'a Detail \<Rightarrow> error + 'a Value" where
  "gradient index d =
     (if index = 0 then Inl NoGradient
      else case node d index of Inl e \<Rightarrow> Inl e | Inr n \<Rightarrow> Inr (grad n))"

section \<open>Building the graph\<close>

text \<open>
  \<^verbatim>\<open>append_node\<close>: \<^verbatim>\<open>emplace\<close> keeps a node that is already stored under the index
  (which takes the 32-bit counter to have wrapped around); the prefixes are put in front
  of the label from the innermost to the outermost.
\<close>

definition append_node :: "nat \<Rightarrow> string \<Rightarrow> 'a Detail \<Rightarrow> error + Index \<times> 'a Detail" where
  "append_node sz lbl d =
     (let idx = node_counter d;
          d1 = d\<lparr>node_counter := node_counter d + 1\<rparr>;
          n0 = (case nodes d1 idx of None \<Rightarrow> Node_new sz lbl | Some n \<Rightarrow> n);
          n1 = n0\<lparr>label := fold (\<lambda>p l. p @ ''/'' @ l) (rev (prefix d1)) (label n0)\<rparr>
      in case inc_ref idx (put_node idx n1 d1) of
           Inl e \<Rightarrow> Inl e
         | Inr d2 \<Rightarrow> Inr (idx, d2))"

definition quoted :: "string \<Rightarrow> string" where
  "quoted s = CHR 0x27 # s @ [CHR 0x27]"

definition append_leaf :: "nat \<Rightarrow> 'a::zero Detail \<Rightarrow> error + Index \<times> 'a Detail" where
  "append_leaf sz d =
     (case append_node sz (quoted ''unnamed'') d of
        Inl e \<Rightarrow> Inl e
      | Inr (idx, d1) \<Rightarrow>
          (case node d1 idx of
             Inl e \<Rightarrow> Inl e
           | Inr n \<Rightarrow> Inr (idx, put_node idx (n\<lparr>grad := zero (unat (node_size n))\<rparr>) d1)))"

definition set_label :: "Index \<Rightarrow> string \<Rightarrow> 'a Detail \<Rightarrow> error + 'a Detail" where
  "set_label idx lbl d =
     (if idx = 0 then Inr d
      else case node d idx of
             Inl e \<Rightarrow> Inl e
           | Inr n \<Rightarrow> Inr (put_node idx (n\<lparr>label := quoted lbl\<rparr>) d))"

definition push_prefix :: "string \<Rightarrow> 'a Detail \<Rightarrow> 'a Detail" where
  "push_prefix v d = d\<lparr>prefix := prefix d @ [v]\<rparr>"

definition pop_prefix :: "'a Detail \<Rightarrow> error + 'a Detail" where
  "pop_prefix d =
     (if prefix d = [] then Inl PrefixUnderflow else Inr (d\<lparr>prefix := butlast (prefix d)\<rparr>))"

definition set_scatter_gather_operand ::
  "Index option \<Rightarrow> nat \<Rightarrow> bool \<Rightarrow> 'a Detail \<Rightarrow> 'a Detail" where
  "set_scatter_gather_operand index sz perm d =
     d\<lparr>scatter_gather_index := index, scatter_gather_size := sz,
       scatter_gather_permute := perm\<rparr>"

definition set_log_level :: "32 word \<Rightarrow> 'a Detail \<Rightarrow> 'a Detail" where
  "set_log_level level d = d\<lparr>log_level := level\<rparr>"

definition set_contract_edges :: "bool \<Rightarrow> 'a Detail \<Rightarrow> 'a Detail" where
  "set_contract_edges v d = d\<lparr>contract_edges := v\<rparr>"

subsection \<open>Edges: contraction, merging, or a new edge\<close>

text \<open>
  The loop over the edge list of the target that looks for an edge from the same source
  and changes the weight of the first one it finds; \<open>None\<close> when there is none.
\<close>

fun merge_into ::
  "Index \<Rightarrow> ('a Value \<Rightarrow> 'a Value) \<Rightarrow> 'a Edge list \<Rightarrow> 'a Edge list option" where
  "merge_into source_idx f [] = None"
| "merge_into source_idx f (edge # rest) =
     (if source edge = source_idx then Some (edge\<lparr>weight := f (weight edge)\<rparr> # rest)
      else case merge_into source_idx f rest of
             None \<Rightarrow> None
           | Some rest' \<Rightarrow> Some (edge # rest'))"

text \<open>
  The contraction loop over the edges of the source; \<open>call\<close> is the recursive
  \<^verbatim>\<open>append_edge_prod\<close> of one edge. The edge list is the one of the source when the loop
  starts: the calls only change the edge list of the target, so this is the walk of the
  source as long as the target is not the node whose list is walked.
\<close>

fun contract_loop ::
  "(Index \<Rightarrow> 'a Value \<Rightarrow> 'a Detail \<Rightarrow> (error + 'a Detail) option) \<Rightarrow>
   'a Edge list \<Rightarrow> 'a Detail \<Rightarrow> (error + 'a Detail) option" where
  "contract_loop call [] d = Some (Inr d)"
| "contract_loop call (edge # rest) d =
     (case call (source edge) (weight edge) d of
        None \<Rightarrow> None
      | Some (Inl e) \<Rightarrow> Some (Inl e)
      | Some (Inr d') \<Rightarrow>
          contract_loop call rest (d'\<lparr>edge_contractions := edge_contractions d' + 1\<rparr>))"

text \<open>
  \<^verbatim>\<open>append_edge_prod\<close> calls itself along the edges of the source, and nothing in the
  store bounds that (an edge from a node to itself makes it run forever). The first
  argument is fuel: the depth of calls still allowed. \<open>None\<close> says that the fuel ran
  out, that is, that the call did not return within that depth.
\<close>

fun append_edge_prod ::
  "nat \<Rightarrow> Index \<Rightarrow> Index \<Rightarrow> 'a::{zero,plus,times} Value \<Rightarrow> 'a Value \<Rightarrow> 'a Detail \<Rightarrow>
   (error + 'a Detail) option" where
  "append_edge_prod 0 source_idx target_idx weight1 weight2 d = None"
| "append_edge_prod (Suc fuel) source_idx target_idx weight1 weight2 d =
     (if source_idx = 0 then Some (Inr d)
      else if target_idx = 0 then Some (Inl AssertionFailed)
      else case node d source_idx of
        Inl e \<Rightarrow> Some (Inl e)
      | Inr src \<Rightarrow>
         (case node d target_idx of
            Inl e \<Rightarrow> Some (Inl e)
          | Inr target \<Rightarrow>
              if \<not> has_special src \<and> node_size src = node_size target
                 \<and> 0 < degree src \<and> contract_edges d
              then contract_loop
                     (\<lambda>s w d'. append_edge_prod fuel s target_idx
                                  (safe_mul weight1 weight2) w d')
                     (edges src) d
              else (case merge_into source_idx (\<lambda>w. safe_fmadd weight1 weight2 w)
                           (edges target) of
                      Some es \<Rightarrow>
                        Some (Inr ((put_node target_idx (target\<lparr>edges := es\<rparr>) d)
                                     \<lparr>edge_merges := edge_merges d + 1\<rparr>))
                    | None \<Rightarrow>
                        Some (inc_ref source_idx
                                (put_node target_idx
                                   (Node_append_edge target
                                      (Edge_weight source_idx (safe_mul weight1 weight2)))
                                   d)))))"

definition append_edge ::
  "nat \<Rightarrow> Index \<Rightarrow> Index \<Rightarrow> 'a::{zero,plus,times} Value \<Rightarrow> 'a Detail \<Rightarrow>
   (error + 'a Detail) option" where
  "append_edge fuel source_idx target_idx w d =
     (if source_idx = 0 then Some (Inr d)
      else if target_idx = 0 then Some (Inl AssertionFailed)
      else case node d source_idx of
        Inl e \<Rightarrow> Some (Inl e)
      | Inr src \<Rightarrow>
         (case node d target_idx of
            Inl e \<Rightarrow> Some (Inl e)
          | Inr target \<Rightarrow>
              if \<not> has_special src \<and> node_size src = node_size target
                 \<and> 0 < degree src \<and> contract_edges d
              then contract_loop
                     (\<lambda>s w' d'. append_edge_prod fuel s target_idx w w' d')
                     (edges src) d
              else (case merge_into source_idx (\<lambda>w'. add w' w) (edges target) of
                      Some es \<Rightarrow>
                        Some (Inr ((put_node target_idx (target\<lparr>edges := es\<rparr>) d)
                                     \<lparr>edge_merges := edge_merges d + 1\<rparr>))
                    | None \<Rightarrow>
                        Some (inc_ref source_idx
                                (put_node target_idx
                                   (Node_append_edge target (Edge_weight source_idx w))
                                   d)))))"


subsection \<open>append, with one, two and three parents\<close>

definition append_1 ::
  "nat \<Rightarrow> string \<Rightarrow> nat \<Rightarrow> Index \<Rightarrow> 'a::{zero,plus,times} Value \<Rightarrow> 'a Detail \<Rightarrow>
   (error + Index \<times> 'a Detail) option" where
  "append_1 fuel lbl sz i1 w1 d =
     (if i1 = 0 then Some (Inr (0, d))
      else case append_node sz lbl d of
        Inl e \<Rightarrow> Some (Inl e)
      | Inr (idx, d0) \<Rightarrow>
         (case append_edge fuel i1 idx w1 d0 of
            None \<Rightarrow> None
          | Some (Inl e) \<Rightarrow> Some (Inl e)
          | Some (Inr d1) \<Rightarrow> Some (Inr (idx, d1))))"

definition append_2 ::
  "nat \<Rightarrow> string \<Rightarrow> nat \<Rightarrow> Index \<Rightarrow> Index \<Rightarrow> 'a::{zero,plus,times} Value \<Rightarrow> 'a Value \<Rightarrow>
   'a Detail \<Rightarrow> (error + Index \<times> 'a Detail) option" where
  "append_2 fuel lbl sz i1 i2 w1 w2 d =
     (if i1 = 0 \<and> i2 = 0 then Some (Inr (0, d))
      else case append_node sz lbl d of
        Inl e \<Rightarrow> Some (Inl e)
      | Inr (idx, d0) \<Rightarrow>
         (case append_edge fuel i1 idx w1 d0 of
            None \<Rightarrow> None
          | Some (Inl e) \<Rightarrow> Some (Inl e)
          | Some (Inr d1) \<Rightarrow>
             (case append_edge fuel i2 idx w2 d1 of
                None \<Rightarrow> None
              | Some (Inl e) \<Rightarrow> Some (Inl e)
              | Some (Inr d2) \<Rightarrow> Some (Inr (idx, d2)))))"

definition append_3 ::
  "nat \<Rightarrow> string \<Rightarrow> nat \<Rightarrow> Index \<Rightarrow> Index \<Rightarrow> Index \<Rightarrow>
   'a::{zero,plus,times} Value \<Rightarrow> 'a Value \<Rightarrow> 'a Value \<Rightarrow>
   'a Detail \<Rightarrow> (error + Index \<times> 'a Detail) option" where
  "append_3 fuel lbl sz i1 i2 i3 w1 w2 w3 d =
     (if i1 = 0 \<and> i2 = 0 \<and> i3 = 0 then Some (Inr (0, d))
      else case append_node sz lbl d of
        Inl e \<Rightarrow> Some (Inl e)
      | Inr (idx, d0) \<Rightarrow>
         (case append_edge fuel i1 idx w1 d0 of
            None \<Rightarrow> None
          | Some (Inl e) \<Rightarrow> Some (Inl e)
          | Some (Inr d1) \<Rightarrow>
             (case append_edge fuel i2 idx w2 d1 of
                None \<Rightarrow> None
              | Some (Inl e) \<Rightarrow> Some (Inl e)
              | Some (Inr d2) \<Rightarrow>
                 (case append_edge fuel i3 idx w3 d2 of
                    None \<Rightarrow> None
                  | Some (Inl e) \<Rightarrow> Some (Inl e)
                  | Some (Inr d3) \<Rightarrow> Some (Inr (idx, d3))))))"

subsection \<open>Gather and scatter\<close>

text \<open>
  The branches for a dynamic value type. The context is the pointer
  \<^verbatim>\<open>scatter_gather_index\<close> to an index held by the array that is read or written:
  \<open>None\<close> is the null pointer, \<open>Some i\<close> a pointer to a slot holding \<open>i\<close>, and the
  assignment through the pointer changes the slot.
\<close>

definition append_gather ::
  "int list \<Rightarrow> Mask \<Rightarrow> 'a Detail \<Rightarrow> error + Index \<times> 'a Detail" where
  "append_gather offset msk d =
     (case scatter_gather_index d of
        None \<Rightarrow> Inr (0, d)
      | Some src_idx \<Rightarrow>
          if src_idx = 0 then Inr (0, d)
          else case node d src_idx of
            Inl e \<Rightarrow> Inl e
          | Inr src \<Rightarrow>
             (case append_node (length offset) ''gather'' d of
                Inl e \<Rightarrow> Inl e
              | Inr (target, d1) \<Rightarrow>
                 (case node d1 target of
                    Inl e \<Rightarrow> Inl e
                  | Inr tn \<Rightarrow>
                     (case inc_ref src_idx
                             (put_node target
                                (Node_append_edge tn
                                   (Edge_special src_idx
                                      (Gather offset msk (unat (node_size src))
                                         (scatter_gather_permute d))))
                                d1) of
                        Inl e \<Rightarrow> Inl e
                      | Inr d2 \<Rightarrow> Inr (target, d2)))))"

text \<open>The part \<^verbatim>\<open>append_scatter\<close> and \<^verbatim>\<open>append_scatter_add\<close> share: the new node
  with its one special edge, and the reference the edge takes.\<close>

definition scatter_node ::
  "string \<Rightarrow> Index \<Rightarrow> int list \<Rightarrow> Mask \<Rightarrow> 'a Detail \<Rightarrow> error + Index \<times> 'a Detail" where
  "scatter_node lbl src_idx offset msk d =
     (case append_node (scatter_gather_size d) lbl d of
        Inl e \<Rightarrow> Inl e
      | Inr (target_new, d1) \<Rightarrow>
         (case node d1 target_new of
            Inl e \<Rightarrow> Inl e
          | Inr tn \<Rightarrow>
             (case inc_ref src_idx
                     (put_node target_new
                        (Node_append_edge tn (Edge_special src_idx (Scatter offset msk)))
                        d1) of
                Inl e \<Rightarrow> Inl e
              | Inr d2 \<Rightarrow> Inr (target_new, d2))))"

text \<open>The part after the new node: the combination with the node the array held.\<close>

definition combine ::
  "nat \<Rightarrow> string \<Rightarrow> Index \<Rightarrow> Index \<Rightarrow> 'a::{zero,one,plus,times} Value \<Rightarrow> 'a Detail \<Rightarrow>
   (error + 'a Detail) option" where
  "combine fuel lbl target_new target_orig w d =
     (if target_orig \<noteq> 0
      then case append_2 fuel lbl (scatter_gather_size d) target_new target_orig [1] w d of
             None \<Rightarrow> None
           | Some (Inl e) \<Rightarrow> Some (Inl e)
           | Some (Inr (combined, d1)) \<Rightarrow>
              (case dec_ref target_new d1 of
                 Inl e \<Rightarrow> Some (Inl e)
               | Inr d2 \<Rightarrow>
                  (case dec_ref target_orig d2 of
                     Inl e \<Rightarrow> Some (Inl e)
                   | Inr d3 \<Rightarrow> Some (Inr (d3\<lparr>scatter_gather_index := Some combined\<rparr>))))
      else Some (Inr (d\<lparr>scatter_gather_index := Some target_new\<rparr>)))"

definition append_scatter ::
  "nat \<Rightarrow> Index \<Rightarrow> int list \<Rightarrow> Mask \<Rightarrow> 'a::{zero,one,plus,times} Detail \<Rightarrow>
   (error + 'a Detail) option" where
  "append_scatter fuel src_idx offset msk d =
     (case scatter_gather_index d of
        None \<Rightarrow> Some (Inr d)
      | Some target_orig \<Rightarrow>
         (case scatter_node ''scatter'' src_idx offset msk d of
            Inl e \<Rightarrow> Some (Inl e)
          | Inr (target_new, d1) \<Rightarrow>
              combine fuel ''scatter_combine'' target_new target_orig
                (if \<not> scatter_gather_permute d1
                 then scatter (full 1 (scatter_gather_size d1)) [0] offset msk
                 else [1])
                d1))"

definition append_scatter_add ::
  "nat \<Rightarrow> Index \<Rightarrow> int list \<Rightarrow> Mask \<Rightarrow> 'a::{zero,one,plus,times} Detail \<Rightarrow>
   (error + 'a Detail) option" where
  "append_scatter_add fuel src_idx offset msk d =
     (case scatter_gather_index d of
        None \<Rightarrow> Some (Inr d)
      | Some target_orig \<Rightarrow>
         (case scatter_node ''scatter_add'' src_idx offset msk d of
            Inl e \<Rightarrow> Some (Inl e)
          | Inr (target_new, d1) \<Rightarrow>
              combine fuel ''add'' target_new target_orig [1] d1))"

section \<open>The reverse sweep\<close>

text \<open>\<^verbatim>\<open>compute_gradients\<close> of the two kinds of pull-back.\<close>

fun compute_gradients ::
  "Special \<Rightarrow> Index \<Rightarrow> 'a Edge \<Rightarrow> 'a::{zero,plus} Detail \<Rightarrow> error + 'a Detail" where
  "compute_gradients (Gather offset msk sz perm) target edge d =
     (case node d target of
        Inl e \<Rightarrow> Inl e
      | Inr tn \<Rightarrow>
         (case node d (source edge) of
            Inl e \<Rightarrow> Inl e
          | Inr sn \<Rightarrow>
              if length (grad sn) \<noteq> sz then Inl AssertionFailed
              else Inr (put_node (source edge)
                          (sn\<lparr>grad := (if perm then scatter (grad sn) (grad tn) offset msk
                                        else scatter_add (grad sn) (grad tn) offset msk)\<rparr>)
                          d)))"
| "compute_gradients (Scatter offset msk) target edge d =
     (case node d target of
        Inl e \<Rightarrow> Inl e
      | Inr tn \<Rightarrow>
         (case node d (source edge) of
            Inl e \<Rightarrow> Inl e
          | Inr sn \<Rightarrow>
              Inr (put_node (source edge)
                     (sn\<lparr>grad := add (grad sn) (gather (grad tn) offset msk)\<rparr>) d)))"

text \<open>
  One edge of the target in the sweep. The gradient of the target is read through the
  reference the source holds to the node, so it is read from the store as it is at that
  moment. (Should the target have been erased meanwhile, the reference of the source
  dangles; the model reports the node as unknown.)
\<close>

definition sweep_edge ::
  "Index \<Rightarrow> 'a Edge \<Rightarrow> 'a::{zero,plus,times} Detail \<Rightarrow> error + 'a Detail" where
  "sweep_edge target_idx edge d =
     (case special edge of
        None \<Rightarrow>
          (case node d (source edge) of
             Inl e \<Rightarrow> Inl e
           | Inr src \<Rightarrow>
              (case node d target_idx of
                 Inl e \<Rightarrow> Inl e
               | Inr target \<Rightarrow>
                   Inr (put_node (source edge)
                          (src\<lparr>grad := safe_fmadd (weight edge) (grad target) (grad src)\<rparr>)
                          d)))
      | Some sp \<Rightarrow> compute_gradients sp target_idx edge d)"

fun sweep_edges ::
  "bool \<Rightarrow> Index \<Rightarrow> 'a Edge list \<Rightarrow> 'a::{zero,plus,times} Detail \<Rightarrow> error + 'a Detail" where
  "sweep_edges free_graph target_idx [] d = Inr d"
| "sweep_edges free_graph target_idx (edge # rest) d =
     (case sweep_edge target_idx edge d of
        Inl e \<Rightarrow> Inl e
      | Inr d1 \<Rightarrow>
         (case (if free_graph then dec_ref (source edge) d1 else Inr d1) of
            Inl e \<Rightarrow> Inl e
          | Inr d2 \<Rightarrow> sweep_edges free_graph target_idx rest d2))"

text \<open>One scheduled index of the sweep: the collapse of a vector-shaped gradient of a
  scalar node, the edges, and with \<^verbatim>\<open>free_graph\<close> the release of the edges and of the
  reference taken before the sweep.\<close>

definition sweep_target ::
  "bool \<Rightarrow> Index \<Rightarrow> 'a::{zero,plus,times} Detail \<Rightarrow> error + 'a Detail" where
  "sweep_target free_graph target_idx d =
     (case node d target_idx of
        Inl e \<Rightarrow> Inl e
      | Inr target \<Rightarrow>
         (case sweep_edges free_graph target_idx (edges target)
                 (if is_scalar target \<and> length (grad target) \<noteq> 1
                  then put_node target_idx (target\<lparr>grad := hsum (grad target)\<rparr>) d
                  else d) of
            Inl e \<Rightarrow> Inl e
          | Inr d1 \<Rightarrow>
              if free_graph
              then (case node d1 target_idx of
                      Inl e \<Rightarrow> Inl e
                    | Inr t1 \<Rightarrow> dec_ref target_idx (put_node target_idx (t1\<lparr>edges := []\<rparr>) d1))
              else Inr d1))"

fun sweep :: "bool \<Rightarrow> Index list \<Rightarrow> 'a::{zero,plus,times} Detail \<Rightarrow> error + 'a Detail" where
  "sweep free_graph [] d = Inr d"
| "sweep free_graph (target_idx # rest) d =
     (case sweep_target free_graph target_idx d of
        Inl e \<Rightarrow> Inl e
      | Inr d1 \<Rightarrow> sweep free_graph rest d1)"

fun inc_refs :: "Index list \<Rightarrow> 'a Detail \<Rightarrow> error + 'a Detail" where
  "inc_refs [] d = Inr d"
| "inc_refs (i # rest) d =
     (case inc_ref i d of Inl e \<Rightarrow> Inl e | Inr d1 \<Rightarrow> inc_refs rest d1)"

text \<open>The order of the sweep: the reverse iteration of the ordered set.\<close>

definition sweep_order :: "'a Detail \<Rightarrow> Index list" where
  "sweep_order d = rev (sorted_list_of_set (scheduled d))"

definition backward :: "bool \<Rightarrow> 'a::{zero,plus,times} Detail \<Rightarrow> error + 'a Detail" where
  "backward free_graph d =
     (case (if free_graph then inc_refs (sweep_order d) d else Inr d) of
        Inl e \<Rightarrow> Inl e
      | Inr d1 \<Rightarrow>
         (case sweep free_graph (sweep_order d) d1 of
            Inl e \<Rightarrow> Inl e
          | Inr d2 \<Rightarrow>
              Inr ((if free_graph
                    then d2\<lparr>node_counter_last := node_counter d2,
                            edge_contractions_last := edge_contractions d2,
                            edge_merges_last := edge_merges d2\<rparr>
                    else d2)\<lparr>scheduled := {}\<rparr>)))"

section \<open>Graphviz\<close>

text \<open>
  What \<^verbatim>\<open>graphviz\<close> does to the tape; the text it returns is not modelled. It
  searches from every root without clearing gradients, looks every scheduled node up
  (twice, in increasing order of the indices), and clears the scheduled set.
\<close>

fun dfs_roots :: "Index list \<Rightarrow> 'a::zero Detail \<Rightarrow> error + 'a Detail" where
  "dfs_roots [] d = Inr d"
| "dfs_roots (index # rest) d =
     (case dfs index False d of Inl e \<Rightarrow> Inl e | Inr d1 \<Rightarrow> dfs_roots rest d1)"

definition graphviz :: "Index list \<Rightarrow> 'a::zero Detail \<Rightarrow> error + 'a Detail" where
  "graphviz indices d =
     (case dfs_roots indices d of
        Inl e \<Rightarrow> Inl e
      | Inr d1 \<Rightarrow>
         (case find (\<lambda>index. nodes d1 index = None) (sorted_list_of_set (scheduled d1)) of
            Some index \<Rightarrow> Inl (UnknownNode index)
          | None \<Rightarrow> Inr (d1\<lparr>scheduled := {}\<rparr>)))"


section \<open>The public surface as calls\<close>

text \<open>
  One call of the public surface of the tape, and a sequence of calls from a state. The
  index a call returns is dropped: it is the value the node counter had before the call.
  \<^verbatim>\<open>gradient\<close> only reads. The fuel is the depth allowed to every contraction.
\<close>

datatype 'a call =
    Append_leaf nat
  | Append_1 string nat Index "'a Value"
  | Append_2 string nat Index Index "'a Value" "'a Value"
  | Append_3 string nat Index Index Index "'a Value" "'a Value" "'a Value"
  | Append_gather "int list" Mask
  | Append_scatter Index "int list" Mask
  | Append_scatter_add Index "int list" Mask
  | Inc_ref Index
  | Dec_ref Index
  | Set_label Index string
  | Push_prefix string
  | Pop_prefix
  | Set_scatter_gather_operand "Index option" nat bool
  | Set_gradient Index "'a Value"
  | Backward bool
  | Set_log_level "32 word"
  | Set_contract_edges bool
  | Graphviz "Index list"

definition drop_index :: "error + Index \<times> 'a Detail \<Rightarrow> error + 'a Detail" where
  "drop_index r = (case r of Inl e \<Rightarrow> Inl e | Inr (idx, d) \<Rightarrow> Inr d)"

fun do_call ::
  "nat \<Rightarrow> 'a::{zero,one,plus,times} call \<Rightarrow> 'a Detail \<Rightarrow> (error + 'a Detail) option" where
  "do_call fuel (Append_leaf sz) d = Some (drop_index (append_leaf sz d))"
| "do_call fuel (Append_1 lbl sz i1 w1) d = map_option drop_index (append_1 fuel lbl sz i1 w1 d)"
| "do_call fuel (Append_2 lbl sz i1 i2 w1 w2) d =
     map_option drop_index (append_2 fuel lbl sz i1 i2 w1 w2 d)"
| "do_call fuel (Append_3 lbl sz i1 i2 i3 w1 w2 w3) d =
     map_option drop_index (append_3 fuel lbl sz i1 i2 i3 w1 w2 w3 d)"
| "do_call fuel (Append_gather offset msk) d = Some (drop_index (append_gather offset msk d))"
| "do_call fuel (Append_scatter src_idx offset msk) d = append_scatter fuel src_idx offset msk d"
| "do_call fuel (Append_scatter_add src_idx offset msk) d =
     append_scatter_add fuel src_idx offset msk d"
| "do_call fuel (Inc_ref i) d = Some (inc_ref i d)"
| "do_call fuel (Dec_ref i) d = Some (dec_ref i d)"
| "do_call fuel (Set_label i lbl) d = Some (set_label i lbl d)"
| "do_call fuel (Push_prefix v) d = Some (Inr (push_prefix v d))"
| "do_call fuel Pop_prefix d = Some (pop_prefix d)"
| "do_call fuel (Set_scatter_gather_operand index sz perm) d =
     Some (Inr (set_scatter_gather_operand index sz perm d))"
| "do_call fuel (Set_gradient i v) d = Some (set_gradient i v d)"
| "do_call fuel (Backward free_graph) d = Some (backward free_graph d)"
| "do_call fuel (Set_log_level level) d = Some (Inr (set_log_level level d))"
| "do_call fuel (Set_contract_edges v) d = Some (Inr (set_contract_edges v d))"
| "do_call fuel (Graphviz indices) d = Some (graphviz indices d)"

fun do_calls ::
  "nat \<Rightarrow> 'a::{zero,one,plus,times} call list \<Rightarrow> 'a Detail \<Rightarrow> (error + 'a Detail) option" where
  "do_calls fuel [] d = Some (Inr d)"
| "do_calls fuel (c # cs) d =
     (case do_call fuel c d of
        None \<Rightarrow> None
      | Some (Inl e) \<Rightarrow> Some (Inl e)
      | Some (Inr d') \<Rightarrow> do_calls fuel cs d')"

section \<open>Auxiliary notions of the statements\<close>

text \<open>A value fits \<open>n\<close> lanes when it has \<open>n\<close> lanes or is a scalar to be broadcast.\<close>

definition fits :: "nat \<Rightarrow> 'b list \<Rightarrow> bool" where
  "fits n v = (length v = n \<or> length v = 1)"

text \<open>What is read of a node of the store; a node that is not stored has no edges, the
  empty gradient and the count 0.\<close>

definition edges_at :: "Index \<Rightarrow> 'a Detail \<Rightarrow> 'a Edge list" where
  "edges_at i d = (case nodes d i of None \<Rightarrow> [] | Some n \<Rightarrow> edges n)"

definition grad_at :: "Index \<Rightarrow> 'a Detail \<Rightarrow> 'a Value" where
  "grad_at i d = (case nodes d i of None \<Rightarrow> [] | Some n \<Rightarrow> grad n)"

definition ref_count_at :: "Index \<Rightarrow> 'a Detail \<Rightarrow> 32 word" where
  "ref_count_at i d = (case nodes d i of None \<Rightarrow> 0 | Some n \<Rightarrow> ref_count n)"

text \<open>The outcome of an operation, seen through an observation of the state it leaves.\<close>

definition observe ::
  "('a Detail \<Rightarrow> 'b) \<Rightarrow> (error + 'a Detail) option \<Rightarrow> (error + 'b) option" where
  "observe f r = map_option (map_sum id f) r"

text \<open>
  A lane type with \<open>nan\<close> and the two infinities, to evaluate the operations at inputs
  that hold them: finite lanes are integers, products and sums follow the IEEE rules for
  the special values (\<open>inf * 0 = nan\<close>, \<open>inf + -inf = nan\<close>, \<open>nan\<close> absorbs).
\<close>

datatype ieee = Fin int | PInf | NInf | NaN

instantiation ieee :: "{zero,one,plus,times}"
begin

definition zero_ieee :: ieee where
  "zero_ieee = Fin 0"

definition one_ieee :: ieee where
  "one_ieee = Fin 1"

fun times_ieee :: "ieee \<Rightarrow> ieee \<Rightarrow> ieee" where
  "times_ieee NaN y = NaN"
| "times_ieee x NaN = NaN"
| "times_ieee (Fin a) (Fin b) = Fin (a * b)"
| "times_ieee (Fin a) PInf = (if a = 0 then NaN else if 0 < a then PInf else NInf)"
| "times_ieee (Fin a) NInf = (if a = 0 then NaN else if 0 < a then NInf else PInf)"
| "times_ieee PInf (Fin b) = (if b = 0 then NaN else if 0 < b then PInf else NInf)"
| "times_ieee NInf (Fin b) = (if b = 0 then NaN else if 0 < b then NInf else PInf)"
| "times_ieee PInf PInf = PInf"
| "times_ieee PInf NInf = NInf"
| "times_ieee NInf PInf = NInf"
| "times_ieee NInf NInf = PInf"

fun plus_ieee :: "ieee \<Rightarrow> ieee \<Rightarrow> ieee" where
  "plus_ieee NaN y = NaN"
| "plus_ieee x NaN = NaN"
| "plus_ieee (Fin a) (Fin b) = Fin (a + b)"
| "plus_ieee (Fin a) y = y"
| "plus_ieee x (Fin b) = x"
| "plus_ieee PInf PInf = PInf"
| "plus_ieee NInf NInf = NInf"
| "plus_ieee PInf NInf = NaN"
| "plus_ieee NInf PInf = NaN"

instance ..

end

text \<open>
  States used to evaluate the statements at concrete inputs. Each is the state a sequence
  of calls leaves from the empty tape, as the lemmas named \<open>_reached\<close> show.
\<close>

definition leaf_node :: "nat \<Rightarrow> 32 word \<Rightarrow> int Node" where
  "leaf_node sz rc =
     \<lparr>label = quoted ''unnamed'', grad = zero sz, edges = [], ref_count = rc, node_size = of_nat sz\<rparr>"

definition two_leaves_sum :: "int Detail" where
  "two_leaves_sum =
     Detail_new\<lparr>node_counter := 4,
       nodes := [1 \<mapsto> leaf_node 1 2, 2 \<mapsto> leaf_node 1 1,
                 3 \<mapsto> \<lparr>label = ''sum'', grad = [], edges = [Edge_weight 1 [3]],
                        ref_count = 1, node_size = 1\<rparr>]\<rparr>"

definition chain :: "int Detail" where
  "chain =
     Detail_new\<lparr>node_counter := 3,
       nodes := [1 \<mapsto> leaf_node 1 1,
                 2 \<mapsto> \<lparr>label = ''mul'', grad = [], edges = [Edge_weight 1 [2]],
                        ref_count = 1, node_size = 1\<rparr>]\<rparr>"

definition erase :: "Index \<Rightarrow> 'a Detail \<Rightarrow> 'a Detail" where
  "erase i d = d\<lparr>nodes := (nodes d)(i := None)\<rparr>"

definition stored :: "'a Detail \<Rightarrow> Index set" where
  "stored d = dom (nodes d)"

definition self_loop :: "int Detail" where
  "self_loop =
     Detail_new\<lparr>node_counter := 2,
       nodes := [1 \<mapsto> \<lparr>label = ''x'', grad = [], edges = [Edge_weight 1 [2]],
                        ref_count = 1, node_size = 1\<rparr>]\<rparr>"

definition rest_same :: "'a Detail \<Rightarrow> 'a Detail \<Rightarrow> bool" where
  "rest_same d d' = (d' = d\<lparr>nodes := nodes d', scheduled := scheduled d'\<rparr>)"

definition chain_seeded :: "int Detail" where
  "chain_seeded =
     Detail_new\<lparr>node_counter := 3,
       nodes := [1 \<mapsto> \<lparr>label = quoted ''unnamed'', grad = [5], edges = [],
                        ref_count = 1, node_size = 1\<rparr>,
                 2 \<mapsto> \<lparr>label = ''mul'', grad = [], edges = [Edge_weight 1 [2]],
                        ref_count = 1, node_size = 1\<rparr>],
       scheduled := {1}\<rparr>"

text \<open>What an \<open>append_edge\<close> towards \<open>t\<close> may change: the edge list of \<open>t\<close>, reference
  counts, and the two counters of rewrites. No node is added or erased, and labels,
  gradients and sizes stay.\<close>

definition edge_frame :: "Index \<Rightarrow> 'a Detail \<Rightarrow> 'a Detail \<Rightarrow> bool" where
  "edge_frame t d d' =
     (dom (nodes d') = dom (nodes d)
      \<and> (\<forall>i n. nodes d i = Some n \<longrightarrow>
            (\<exists>n'. nodes d' i = Some n' \<and> label n' = label n \<and> grad n' = grad n
                  \<and> node_size n' = node_size n \<and> (i \<noteq> t \<longrightarrow> edges n' = edges n)))
      \<and> d'\<lparr>nodes := nodes d, edge_contractions := edge_contractions d,
             edge_merges := edge_merges d\<rparr> = d)"

text \<open>The order of the identifiers: every edge of a stored node names a source with a
  strictly smaller index than the node.\<close>

definition edges_descend :: "'a Detail \<Rightarrow> bool" where
  "edges_descend d = (\<forall>t n e. nodes d t = Some n \<longrightarrow> e \<in> set (edges n) \<longrightarrow> source e < t)"

text \<open>What the sweep of indices below \<open>t\<close> may do to the store: erase nodes, change
  reference counts, clear edge lists, and change gradients of nodes below \<open>t\<close>.\<close>

definition kept_from :: "Index \<Rightarrow> 'a Detail \<Rightarrow> 'a Detail \<Rightarrow> bool" where
  "kept_from t d d' =
     (\<forall>j n'. nodes d' j = Some n' \<longrightarrow>
        (\<exists>n. nodes d j = Some n \<and> (edges n' = edges n \<or> edges n' = [])
             \<and> (t \<le> j \<longrightarrow> grad n' = grad n)))"

definition broadcast_seeded :: "int Detail" where
  "broadcast_seeded =
     Detail_new\<lparr>node_counter := 3,
       nodes := [1 \<mapsto> \<lparr>label = quoted ''unnamed'', grad = [0], edges = [],
                        ref_count = 2, node_size = 1\<rparr>,
                 2 \<mapsto> \<lparr>label = ''mul'', grad = [1, 1, 1, 1],
                        edges = [Edge_weight 1 [2, 2, 2, 2]],
                        ref_count = 1, node_size = 4\<rparr>],
       scheduled := {1, 2}\<rparr>"


definition buffer_and_source :: "int Detail" where
  "buffer_and_source =
     Detail_new\<lparr>node_counter := 3,
       nodes := [1 \<mapsto> leaf_node 4 1, 2 \<mapsto> leaf_node 2 1],
       scatter_gather_index := Some 1, scatter_gather_size := 4\<rparr>"

text \<open>The other invariants of the graph: no two edges of a node name the same source,
  every source of an edge is stored, and the stored indices are not \<open>0\<close> and below the
  counter.\<close>

definition edges_unique :: "'a Detail \<Rightarrow> bool" where
  "edges_unique d = (\<forall>t n. nodes d t = Some n \<longrightarrow> distinct (map source (edges n)))"

definition edges_stored :: "'a Detail \<Rightarrow> bool" where
  "edges_stored d =
     (\<forall>t n e. nodes d t = Some n \<longrightarrow> e \<in> set (edges n) \<longrightarrow> nodes d (source e) \<noteq> None)"

definition ids_issued :: "'a Detail \<Rightarrow> bool" where
  "ids_issued d =
     (node_counter d \<noteq> 0 \<and> (\<forall>t. nodes d t \<noteq> None \<longrightarrow> t \<noteq> 0 \<and> t < node_counter d))"

text \<open>Two ways a call may leave the graph: with the same nodes and the same edge lists,
  or with some nodes erased and some edge lists cleared. Neither issues an index.\<close>

definition edges_same :: "'a Detail \<Rightarrow> 'a Detail \<Rightarrow> bool" where
  "edges_same d d' =
     (node_counter d' = node_counter d
      \<and> (\<forall>j. (nodes d' j = None) = (nodes d j = None))
      \<and> (\<forall>j n n'. nodes d j = Some n \<longrightarrow> nodes d' j = Some n' \<longrightarrow> edges n' = edges n))"

definition shrinks :: "'a Detail \<Rightarrow> 'a Detail \<Rightarrow> bool" where
  "shrinks d d' =
     (node_counter d' = node_counter d
      \<and> (\<forall>j n'. nodes d' j = Some n' \<longrightarrow>
            (\<exists>n. nodes d j = Some n \<and> (edges n' = edges n \<or> edges n' = []))))"




text \<open>The sweep on gradients alone, worded as a reference for \<open>backward\<close>: a map from
  indices to gradients, no store, no reference counts and no errors. \<open>pull_back\<close> is what
  one edge makes of the gradient of its source, given the gradient of the target: the
  fused multiply-add with the weight for an edge that is not special, and the gather or
  scatter of a special edge.\<close>

definition pull_back :: "'a::{zero,plus,times} Edge \<Rightarrow> 'a Value \<Rightarrow> 'a Value \<Rightarrow> 'a Value" where
  "pull_back e grad_target grad_source =
     (case special e of
        None \<Rightarrow> safe_fmadd (weight e) grad_target grad_source
      | Some (Gather offset msk sz perm) \<Rightarrow>
          if perm then scatter grad_source grad_target offset msk
          else scatter_add grad_source grad_target offset msk
      | Some (Scatter offset msk) \<Rightarrow> add grad_source (gather grad_target offset msk))"

text \<open>All edges of a target, one after the other in the order of the list: each edge
  reads the gradient of the target and of its source as they are by then.\<close>

fun edges_grads ::
  "Index \<Rightarrow> 'a::{zero,plus,times} Edge list \<Rightarrow> (Index \<Rightarrow> 'a Value) \<Rightarrow> Index \<Rightarrow> 'a Value" where
  "edges_grads t [] G = G"
| "edges_grads t (e # es) G =
     edges_grads t es (G(source e := pull_back e (G t) (G (source e))))"

text \<open>One target: a gradient that is not of size one is first replaced by its
  horizontal sum when the node has size one; then the edges.\<close>

definition target_grads ::
  "(Index \<rightharpoonup> 'a::{zero,plus,times} Node) \<Rightarrow> Index \<Rightarrow> (Index \<Rightarrow> 'a Value) \<Rightarrow> Index \<Rightarrow> 'a Value" where
  "target_grads N t G =
     (case N t of
        None \<Rightarrow> G
      | Some tn \<Rightarrow>
          edges_grads t (edges tn)
            (if node_size tn = 1 \<and> length (G t) \<noteq> 1 then G(t := hsum (G t)) else G))"

text \<open>The targets in the order of the list; the sizes and the edges are those of the
  store \<open>N\<close> the sweep starts from.\<close>

fun sweep_grads ::
  "(Index \<rightharpoonup> 'a::{zero,plus,times} Node) \<Rightarrow> Index list \<Rightarrow> (Index \<Rightarrow> 'a Value) \<Rightarrow>
   Index \<Rightarrow> 'a Value" where
  "sweep_grads N [] G = G"
| "sweep_grads N (t # ts) G = sweep_grads N ts (target_grads N t G)"

text \<open>What a step of the sweep makes of the store: every node of \<open>x'\<close> is a node of
  \<open>x\<close> with the same size and the same edges (but no edges where \<open>cleared\<close> says so), and
  its gradient is what \<open>G\<close> says.\<close>

definition follows ::
  "'a Detail \<Rightarrow> 'a Detail \<Rightarrow> (Index \<Rightarrow> bool) \<Rightarrow> (Index \<Rightarrow> 'a Value) \<Rightarrow> bool" where
  "follows x x' cleared G =
     (\<forall>u n'. nodes x' u = Some n' \<longrightarrow>
        (\<exists>n. nodes x u = Some n \<and> node_size n' = node_size n \<and> label n' = label n
             \<and> edges n' = (if cleared u then [] else edges n) \<and> grad n' = G u))"

text \<open>Two leaves and their weighted sum, seeded at the sum.\<close>

definition fan_in_seeded :: "int Detail" where
  "fan_in_seeded =
     Detail_new\<lparr>node_counter := 4,
       nodes := [1 \<mapsto> leaf_node 1 2, 2 \<mapsto> leaf_node 1 2,
                 3 \<mapsto> \<lparr>label = ''add'', grad = [1],
                        edges = [Edge_weight 1 [2], Edge_weight 2 [3]],
                        ref_count = 1, node_size = 1\<rparr>],
       scheduled := {1, 2, 3}\<rparr>"

section \<open>Lanes of safe_mul and safe_fmadd\<close>



lemma lane_single [simp]: "lane [x] i = x"
  by (simp add: lane_def)

lemma length_vmap2 [simp]: "length (vmap2 f a b) = max (length a) (length b)"
  by (simp add: vmap2_def)

lemma length_vmap3 [simp]:
  "length (vmap3 f a b c) = max (length a) (max (length b) (length c))"
  by (simp add: vmap3_def)

lemma fits_vmap2: "fits n a \<Longrightarrow> fits n b \<Longrightarrow> fits n (vmap2 f a b)"
  by (auto simp: fits_def)

lemma fits_vmap3: "fits n a \<Longrightarrow> fits n b \<Longrightarrow> fits n c \<Longrightarrow> fits n (vmap3 f a b c)"
  by (auto simp: fits_def)

lemma lane_vmap2:
  assumes "fits n a" "fits n b" "i < n"
  shows "lane (vmap2 f a b) i = f (lane a i) (lane b i)"
proof (cases "max (length a) (length b) = 1")
  case True
  with assms have "length a = 1" "length b = 1" by (auto simp: fits_def max_def split: if_splits)
  then show ?thesis by (simp add: lane_def vmap2_def)
next
  case False
  with assms have n: "max (length a) (length b) = n" by (auto simp: fits_def)
  with False have "lane (vmap2 f a b) i = vmap2 f a b ! i" by (simp add: lane_def)
  also from n assms(3) have "\<dots> = f (lane a i) (lane b i)" by (simp add: vmap2_def)
  finally show ?thesis .
qed

lemma lane_vmap3:
  assumes "fits n a" "fits n b" "fits n c" "i < n"
  shows "lane (vmap3 f a b c) i = f (lane a i) (lane b i) (lane c i)"
proof (cases "max (length a) (max (length b) (length c)) = 1")
  case True
  with assms have "length a = 1" "length b = 1" "length c = 1"
    by (auto simp: fits_def max_def split: if_splits)
  then show ?thesis by (simp add: lane_def vmap3_def)
next
  case False
  with assms have n: "max (length a) (max (length b) (length c)) = n" by (auto simp: fits_def)
  with False have "lane (vmap3 f a b c) i = vmap3 f a b c ! i" by (simp add: lane_def)
  also from n assms(4) have "\<dots> = f (lane a i) (lane b i) (lane c i)" by (simp add: vmap3_def)
  finally show ?thesis .
qed

lemma fits_single [simp]: "fits n [x]"
  by (simp add: fits_def)

lemma lane_is_zero:
  assumes "fits n a" "fits n b" "i < n"
  shows "lane (mask_or (eq a [0]) (eq b [0])) i = (lane a i = 0 \<or> lane b i = 0)"
  using assms by (simp add: mask_or_def eq_def lane_vmap2 [where n = n] fits_vmap2)

lemma fits_is_zero:
  "fits n a \<Longrightarrow> fits n b \<Longrightarrow> fits n (mask_or (eq a [0]) (eq b [0]))"
  by (simp add: mask_or_def eq_def fits_vmap2)

lemma lane_safe_mul:
  assumes "fits n a" "fits n b" "i < n"
  shows "lane (safe_mul a b) i = (if lane a i = 0 \<or> lane b i = 0 then 0 else lane a i * lane b i)"
  using assms
  by (simp add: safe_mul_def Let_def select_def mul_def lane_vmap3 [where n = n]
      lane_vmap2 [where n = n] fits_vmap2 fits_is_zero lane_is_zero [where n = n])

lemma lane_safe_fmadd:
  assumes "fits n a" "fits n b" "fits n c" "i < n"
  shows "lane (safe_fmadd a b c) i
       = (if lane a i = 0 \<or> lane b i = 0 then lane c i else lane a i * lane b i + lane c i)"
  using assms
  by (simp add: safe_fmadd_def Let_def select_def fmadd_def lane_vmap3 [where n = n]
      fits_vmap3 fits_is_zero lane_is_zero [where n = n])

lemma length_safe_mul: "a \<noteq> [] \<Longrightarrow> b \<noteq> [] \<Longrightarrow> length (safe_mul a b) = max (length a) (length b)"
  by (cases a; cases b) (auto simp: safe_mul_def Let_def select_def mul_def mask_or_def eq_def)

lemma length_safe_fmadd:
  "a \<noteq> [] \<Longrightarrow> b \<noteq> [] \<Longrightarrow>
   length (safe_fmadd a b c) = max (length a) (max (length b) (length c))"
  by (cases a; cases b)
     (auto simp: safe_fmadd_def Let_def select_def fmadd_def mask_or_def eq_def)

lemma safe_mul_zero_left: "v \<noteq> [] \<Longrightarrow> safe_mul [0] v = zero (length v)"
proof (rule nth_equalityI)
  assume v: "v \<noteq> []"
  then show "length (safe_mul [0] v) = length (zero (length v))"
    by (simp add: length_safe_mul zero_def max_def) (cases v; simp)
next
  fix i assume v: "v \<noteq> []" and i: "i < length (safe_mul [0] v)"
  from v have n: "length (safe_mul [0] v) = length v"
    by (simp add: length_safe_mul max_def) (cases v; simp)
  have "fits (length v) v" by (simp add: fits_def)
  with i n have "lane (safe_mul [0] v) i = 0"
    by (simp add: lane_safe_mul [of "length v"])
  moreover have "lane (safe_mul [0] v) i = safe_mul [0] v ! i"
    using i n by (auto simp: lane_def)
  ultimately show "safe_mul [0] v ! i = zero (length v) ! i"
    using i n by (simp add: zero_def)
qed


text \<open>
  C5. Take operands that fit a common number \<open>n > 0\<close> of lanes (each has \<open>n\<close> lanes or
  is a scalar that is broadcast). Then every lane of \<open>safe_mul a b\<close> is the lane of the
  product \<open>a * b\<close>, except that it is \<open>0\<close> where the lane of \<open>a\<close> or of \<open>b\<close> is \<open>0\<close>;
  every lane of \<open>safe_fmadd a b c\<close> is the lane of \<open>fmadd a b c\<close>, except that it is the
  lane of \<open>c\<close> where the lane of \<open>a\<close> or of \<open>b\<close> is \<open>0\<close>; and \<open>safe_mul\<close> of the scalar
  \<open>0\<close> and any \<open>b\<close> is the array of zeros of the size of \<open>b\<close>. Nothing is assumed of the
  lane type, so the lanes of \<open>b\<close> may be \<open>nan\<close> or \<open>inf\<close>.
\<close>

theorem safe_mul_safe_fmadd_masked:
  fixes a b c :: "'a::{zero,plus,times} Value"
  assumes "0 < n" and "fits n a" and "fits n b" and "fits n c"
  shows "(\<forall>i<n. lane (safe_mul a b) i
               = (if lane a i = 0 \<or> lane b i = 0 then 0 else lane (mul a b) i))
       \<and> (\<forall>i<n. lane (safe_fmadd a b c) i
               = (if lane a i = 0 \<or> lane b i = 0 then lane c i else lane (fmadd a b c) i))
       \<and> fits n (safe_mul a b) \<and> fits n (safe_fmadd a b c)
       \<and> safe_mul [0] b = zero (length b)"
proof -
  from assms have ne: "a \<noteq> []" "b \<noteq> []" by (auto simp: fits_def)
  have 1: "\<forall>i<n. lane (safe_mul a b) i
               = (if lane a i = 0 \<or> lane b i = 0 then 0 else lane (mul a b) i)"
    using assms by (simp add: lane_safe_mul [where n = n] mul_def lane_vmap2 [where n = n])
  have 2: "\<forall>i<n. lane (safe_fmadd a b c) i
               = (if lane a i = 0 \<or> lane b i = 0 then lane c i else lane (fmadd a b c) i)"
    using assms
    by (simp add: lane_safe_fmadd [where n = n] fmadd_def lane_vmap3 [where n = n])
  have 3: "fits n (safe_mul a b)"
    using assms ne by (auto simp: fits_def length_safe_mul)
  have 4: "fits n (safe_fmadd a b c)"
    using assms ne by (auto simp: fits_def length_safe_fmadd)
  from 1 2 3 4 safe_mul_zero_left [OF ne(2)] show ?thesis by blast
qed

theorem safe_mul_safe_fmadd_masked_witness:
  "fits 2 [Fin 0, Fin 2] \<and> fits 2 [NaN, PInf] \<and> fits 2 [Fin 7]
   \<and> lane (mul [Fin 0, Fin 2] [NaN, PInf]) 0 = NaN
   \<and> lane (safe_mul [Fin 0, Fin 2] [NaN, PInf]) 0 = 0
   \<and> lane (safe_mul [Fin 0, Fin 2] [NaN, PInf]) (Suc 0) = PInf
   \<and> lane (safe_fmadd [Fin 0, Fin 2] [NaN, PInf] [Fin 7]) 0 = Fin 7
   \<and> lane (safe_fmadd [Fin 0, Fin 2] [NaN, PInf] [Fin 7]) (Suc 0) = PInf
   \<and> safe_mul [0] [NaN, PInf] = [0, 0]"
proof -
  have f: "fits 2 [Fin 0, Fin 2]" "fits 2 [NaN, PInf]" "fits 2 [Fin 7]"
    by (simp_all add: fits_def)
  have m: "mul [Fin 0, Fin 2] [NaN, PInf] = [NaN, PInf]"
    by (simp add: mul_def vmap2_def lane_def upt_rec)
  have fm: "fmadd [Fin 0, Fin 2] [NaN, PInf] [Fin 7] = [NaN, PInf]"
    by (simp add: fmadd_def vmap3_def lane_def upt_rec)
  have pos: "0 < (2::nat)" by simp
  note th = safe_mul_safe_fmadd_masked [OF pos f]
  from th have sm: "lane (safe_mul [Fin 0, Fin 2] [NaN, PInf]) i
      = (if lane [Fin 0, Fin 2] i = 0 \<or> lane [NaN, PInf] i = 0 then 0
         else lane (mul [Fin 0, Fin 2] [NaN, PInf]) i)" if "i < 2" for i
    using that by blast
  from th have sf: "lane (safe_fmadd [Fin 0, Fin 2] [NaN, PInf] [Fin 7]) i
      = (if lane [Fin 0, Fin 2] i = 0 \<or> lane [NaN, PInf] i = 0 then lane [Fin 7] i
         else lane (fmadd [Fin 0, Fin 2] [NaN, PInf] [Fin 7]) i)" if "i < 2" for i
    using that by blast
  from th have z: "safe_mul [0] [NaN, PInf] = zero (length [NaN, PInf])"
    by blast
  have la: "lane [Fin 0, Fin 2] 0 = Fin 0" "lane [Fin 0, Fin 2] (Suc 0) = Fin 2"
      "lane [NaN, PInf] 0 = NaN" "lane [NaN, PInf] (Suc 0) = PInf"
    by (simp_all add: lane_def)
  have l0: "lane (safe_mul [Fin 0, Fin 2] [NaN, PInf]) 0 = 0"
    by (simp add: sm [of 0] la zero_ieee_def)
  have l1: "lane (safe_mul [Fin 0, Fin 2] [NaN, PInf]) (Suc 0) = PInf"
    by (simp add: sm [of "Suc 0"] m la zero_ieee_def)
  have g0: "lane (safe_fmadd [Fin 0, Fin 2] [NaN, PInf] [Fin 7]) 0 = Fin 7"
    by (simp add: sf [of 0] la zero_ieee_def)
  have g1: "lane (safe_fmadd [Fin 0, Fin 2] [NaN, PInf] [Fin 7]) (Suc 0) = PInf"
    by (simp add: sf [of "Suc 0"] fm la zero_ieee_def)
  have z': "safe_mul [0] [NaN, PInf] = [0, 0]"
    by (simp add: z zero_def numeral_2_eq_2)
  have m0: "lane (mul [Fin 0, Fin 2] [NaN, PInf]) 0 = NaN"
    by (simp add: m lane_def)
  from f m0 l0 l1 g0 g1 z' show ?thesis by blast
qed

section \<open>A new edge goes behind the last edge\<close>


lemma two_leaves_sum_reached:
  "do_calls 0 [Append_leaf 1, Append_leaf 1, Append_1 ''sum'' 1 1 [3]] Detail_new
     = Some (Inr two_leaves_sum)"
  by (simp add: two_leaves_sum_def leaf_node_def Detail_new_def append_leaf_def append_node_def
      inc_ref_def node_def put_node_def Node_new_def append_1_def append_edge_def drop_index_def
      has_special_def degree_def Node_append_edge_def Edge_weight_def zero_def fun_upd_twist)

lemma link_last_append: "link_last es e = es @ [e]"
  by (induction es) simp_all

lemma merge_into_None: "(merge_into s f es = None) = (\<forall>e\<in>set es. source e \<noteq> s)"
  by (induction es) (auto split: option.splits)

lemma fold_is_special:
  "fold (\<lambda>e r. r \<or> is_special e) es b = (b \<or> (\<exists>e\<in>set es. is_special e))"
  by (induction es arbitrary: b) auto

lemma has_special_iff: "has_special n = (\<exists>e\<in>set (edges n). is_special e)"
  by (simp add: has_special_def fold_is_special)

lemma degree_Nil: "edges n = [] \<Longrightarrow> degree n = 0"
  by (simp add: degree_def)

text \<open>
  C2 (amended). When \<open>append_edge src tgt w\<close> neither contracts nor merges, it returns,
  and the edge list of the target is the old list with the new edge \<open>(src, w)\<close> behind
  its last edge: the new edge is the last of the list, not its head. The reference count
  of the source goes up by one; no other edge list, count or gradient changes, no node
  is added or erased, and nothing else of the tape changes.
\<close>

theorem append_edge_new_edge_last:
  fixes d :: "'a::{zero,plus,times} Detail"
  assumes "source_idx \<noteq> 0" and "target_idx \<noteq> 0"
    and "nodes d source_idx = Some src" and "nodes d target_idx = Some target"
    and "\<not> (contract_edges d \<and> edges src \<noteq> [] \<and> node_size src = node_size target
            \<and> (\<forall>e\<in>set (edges src). \<not> is_special e))"
    and "\<forall>e\<in>set (edges target). source e \<noteq> source_idx"
  shows "\<exists>d'. append_edge fuel source_idx target_idx w d = Some (Inr d')
           \<and> edges_at target_idx d' = edges target @ [Edge_weight source_idx w]
           \<and> ref_count_at source_idx d' = ref_count src + 1
           \<and> (\<forall>i. i \<noteq> target_idx \<longrightarrow> edges_at i d' = edges_at i d)
           \<and> (\<forall>i. i \<noteq> source_idx \<longrightarrow> ref_count_at i d' = ref_count_at i d)
           \<and> (\<forall>i. grad_at i d' = grad_at i d)
           \<and> dom (nodes d') = dom (nodes d)
           \<and> d'\<lparr>nodes := nodes d\<rparr> = d"
proof -
  from assms(5) have nc: "\<not> (\<not> has_special src \<and> node_size src = node_size target
                 \<and> 0 < degree src \<and> contract_edges d)"
    by (auto simp: has_special_iff degree_Nil)
  from assms(6) have nm: "merge_into source_idx (\<lambda>w'. add w' w) (edges target) = None"
    by (simp add: merge_into_None)
  define n1 where "n1 = Node_append_edge target (Edge_weight source_idx w)"
  define n2 where "n2 = (if source_idx = target_idx then n1 else src)"
  define d2 where
    "d2 = put_node source_idx (n2\<lparr>ref_count := ref_count n2 + 1\<rparr>) (put_node target_idx n1 d)"
  have ae: "append_edge fuel source_idx target_idx w d = Some (Inr d2)"
    using assms(1-4) nc nm
    by (auto simp: append_edge_def node_def inc_ref_def put_node_def d2_def n1_def n2_def)
  have rc: "ref_count n2 = ref_count src" and ed: "edges n1 = edges target @ [Edge_weight source_idx w]"
    and gr: "grad n2 = grad src" "grad n1 = grad target"
    using assms(3,4)
    by (auto simp: n2_def n1_def Node_append_edge_def link_last_append)
  have 1: "edges_at target_idx d2 = edges target @ [Edge_weight source_idx w]"
    using ed by (simp add: edges_at_def d2_def put_node_def n2_def)
  have 2: "ref_count_at source_idx d2 = ref_count src + 1"
    using rc by (simp add: ref_count_at_def d2_def put_node_def)
  have 3: "\<forall>i. i \<noteq> target_idx \<longrightarrow> edges_at i d2 = edges_at i d"
    using assms(3) by (auto simp: edges_at_def d2_def put_node_def n2_def)
  have 4: "\<forall>i. i \<noteq> source_idx \<longrightarrow> ref_count_at i d2 = ref_count_at i d"
    using assms(4) by (auto simp: ref_count_at_def d2_def put_node_def n1_def Node_append_edge_def)
  have 5: "\<forall>i. grad_at i d2 = grad_at i d"
    using assms(3,4) gr by (auto simp: grad_at_def d2_def put_node_def)
  have 6: "dom (nodes d2) = dom (nodes d)"
    using assms(3,4) by (auto simp: d2_def put_node_def)
  have 7: "d2\<lparr>nodes := nodes d\<rparr> = d"
    by (simp add: d2_def put_node_def)
  from ae 1 2 3 4 5 6 7 show ?thesis by blast
qed

theorem append_edge_new_edge_last_witness:
  "(2::Index) \<noteq> 0 \<and> (3::Index) \<noteq> 0
   \<and> observe (edges_at 3) (append_edge 0 2 3 [4] two_leaves_sum)
       = Some (Inr [Edge_weight 1 [3], Edge_weight 2 [4]])
   \<and> observe (ref_count_at 2) (append_edge 0 2 3 [4] two_leaves_sum) = Some (Inr 2)"
proof -
  have h: "(2::Index) \<noteq> 0" "(3::Index) \<noteq> 0"
      "nodes two_leaves_sum 2 = Some (leaf_node 1 1)"
      "nodes two_leaves_sum 3 = Some \<lparr>label = ''sum'', grad = [], edges = [Edge_weight 1 [3]],
                        ref_count = 1, node_size = 1\<rparr>"
    by (simp_all add: two_leaves_sum_def)
  have c: "\<not> (contract_edges two_leaves_sum \<and> edges (leaf_node 1 1) \<noteq> []
             \<and> node_size (leaf_node 1 1)
               = node_size \<lparr>label = ''sum'', grad = [], edges = [Edge_weight 1 [3::int]],
                        ref_count = 1, node_size = 1\<rparr>
             \<and> (\<forall>e\<in>set (edges (leaf_node 1 1)). \<not> is_special e))"
    by (simp add: leaf_node_def)
  have m: "\<forall>e\<in>set (edges \<lparr>label = ''sum'', grad = [], edges = [Edge_weight 1 [3::int]],
                        ref_count = 1, node_size = 1\<rparr>). source e \<noteq> 2"
    by (simp add: Edge_weight_def)
  from append_edge_new_edge_last [OF h c m, of 0 "[4]"] obtain d' where
    "append_edge 0 2 3 [4] two_leaves_sum = Some (Inr d')"
    "edges_at 3 d' = [Edge_weight 1 [3], Edge_weight 2 [4]]"
    "ref_count_at 2 d' = 2"
    by (auto simp: leaf_node_def)
  with h(1,2) show ?thesis by (simp add: observe_def)
qed

text \<open>
  C2 as stated fails: with one edge in the list of the target, the list after the call is
  the old list followed by the new edge, and not the new edge followed by the old list.
\<close>

theorem append_edge_head_counterexample:
  "observe (edges_at 3) (append_edge 0 2 3 [4] two_leaves_sum)
     = Some (Inr (edges_at 3 two_leaves_sum @ [Edge_weight 2 [4]]))
   \<and> observe (edges_at 3) (append_edge 0 2 3 [4] two_leaves_sum)
     \<noteq> Some (Inr (Edge_weight 2 [4] # edges_at 3 two_leaves_sum))"
  by (simp add: observe_def two_leaves_sum_def leaf_node_def Detail_new_def append_edge_def
      node_def has_special_def degree_def Edge_weight_def inc_ref_def put_node_def
      Node_append_edge_def edges_at_def)


section \<open>Releasing references\<close>

lemma chain_reached:
  "do_calls 0 [Append_leaf 1, Append_1 ''mul'' 1 1 [2], Dec_ref 1] Detail_new = Some (Inr chain)"
  by (simp add: chain_def leaf_node_def Detail_new_def append_leaf_def append_node_def
      inc_ref_def node_def put_node_def Node_new_def append_1_def append_edge_def drop_index_def
      has_special_def degree_def Node_append_edge_def Edge_weight_def zero_def fun_upd_twist
      dec_ref.simps)

text \<open>
  C7. \<open>dec_ref 0\<close> changes nothing. For \<open>i \<noteq> 0\<close> and a stored node: with the count at
  zero it fails with \<open>UseAfterFree\<close>; otherwise it takes one from the count, and when the
  count becomes zero it goes on as \<open>free_node i\<close>, which calls \<open>dec_ref\<close> on the source
  of every edge of the node in turn (each of which may free further nodes), stops at the
  first failure, and otherwise erases \<open>i\<close> from the store.
\<close>

theorem dec_ref_free_node_cascade:
  fixes d :: "'a Detail"
  shows "dec_ref 0 d = Inr d
    \<and> (i \<noteq> 0 \<and> nodes d i = Some n \<and> ref_count n = 0 \<longrightarrow> dec_ref i d = Inl (UseAfterFree i))
    \<and> (i \<noteq> 0 \<and> nodes d i = Some n \<and> ref_count n \<noteq> 0 \<and> ref_count n \<noteq> 1 \<longrightarrow>
         dec_ref i d = Inr (put_node i (n\<lparr>ref_count := ref_count n - 1\<rparr>) d))
    \<and> (i \<noteq> 0 \<and> nodes d i = Some n \<and> ref_count n = 1 \<longrightarrow>
         dec_ref i d = free_node i (put_node i (n\<lparr>ref_count := 0\<rparr>) d))
    \<and> (nodes d i = Some n \<longrightarrow>
         free_node i d = (case free_edges (edges n) d of
                            Inl e \<Rightarrow> Inl e
                          | Inr d' \<Rightarrow> Inr (erase i d')))
    \<and> free_edges [] d = Inr d
    \<and> free_edges (edge # rest) d = (case dec_ref (source edge) d of
                                      Inl e \<Rightarrow> Inl e
                                    | Inr d' \<Rightarrow> free_edges rest d')
    \<and> (free_node i d = Inr d' \<longrightarrow> nodes d' i = None)
    \<and> (i \<noteq> 0 \<and> nodes d i = Some n \<and> ref_count n = 1 \<and> dec_ref i d = Inr d' \<longrightarrow>
         nodes d' i = None)"
  by (auto simp: dec_ref.simps free_node.simps node_def erase_def split: option.splits sum.splits)

lemma self_loop_reached:
  "do_calls 0 [Append_1 ''x'' 1 1 [2], Dec_ref 1] Detail_new = Some (Inr self_loop)"
  by (simp add: self_loop_def Detail_new_def append_node_def
      inc_ref_def node_def put_node_def Node_new_def append_1_def append_edge_def drop_index_def
      has_special_def degree_def Node_append_edge_def Edge_weight_def dec_ref.simps)

theorem dec_ref_free_node_cascade_witness:
  "dec_ref 0 chain = Inr chain
   \<and> observe stored (Some (dec_ref 2 chain)) = Some (Inr {})
   \<and> dec_ref 1 self_loop = Inl (UseAfterFree 1)"
proof -
  let ?n2 = "\<lparr>label = ''mul'', grad = [], edges = [Edge_weight 1 [2::int]],
              ref_count = 1, node_size = 1\<rparr>"
  let ?d1 = "put_node 2 (?n2\<lparr>ref_count := 0\<rparr>) chain"
  let ?d2 = "put_node 1 ((leaf_node 1 1)\<lparr>ref_count := 0\<rparr>) ?d1"
  let ?x = "\<lparr>label = ''x'', grad = [], edges = [Edge_weight 1 [2::int]],
             ref_count = 1, node_size = 1\<rparr>"
  let ?s1 = "put_node 1 (?x\<lparr>ref_count := 0\<rparr>) self_loop"
  have a: "dec_ref 0 chain = Inr chain"
    using dec_ref_free_node_cascade [of chain] by blast
  have b: "dec_ref 2 chain = free_node 2 ?d1"
    using dec_ref_free_node_cascade [of chain 2 ?n2] by (simp add: chain_def)
  have c: "free_node 2 ?d1 = (case free_edges [Edge_weight 1 [2]] ?d1 of
                               Inl e \<Rightarrow> Inl e | Inr d' \<Rightarrow> Inr (erase 2 d'))"
    using dec_ref_free_node_cascade [of ?d1 2 "?n2\<lparr>ref_count := 0\<rparr>"]
    by (simp add: put_node_def)
  have d: "free_edges [Edge_weight 1 [2]] ?d1
       = (case dec_ref 1 ?d1 of Inl e \<Rightarrow> Inl e | Inr d' \<Rightarrow> Inr d')"
    by (simp add: Edge_weight_def split: sum.splits)
  have e: "dec_ref 1 ?d1 = free_node 1 ?d2"
    using dec_ref_free_node_cascade [of ?d1 1 "leaf_node 1 1"]
    by (simp add: chain_def put_node_def leaf_node_def)
  have f: "free_node 1 ?d2 = Inr (erase 1 ?d2)"
    using dec_ref_free_node_cascade [of ?d2 1 "(leaf_node 1 1)\<lparr>ref_count := 0\<rparr>"]
    by (simp add: put_node_def leaf_node_def)
  have g0: "dec_ref 2 chain = Inr (erase 2 (erase 1 ?d2))"
    by (simp only: b c d e f sum.case)
  have g: "observe stored (Some (dec_ref 2 chain)) = Some (Inr {})"
    unfolding observe_def g0
    by (simp add: stored_def erase_def put_node_def chain_def)
  have h: "dec_ref 1 self_loop = free_node 1 ?s1"
    using dec_ref_free_node_cascade [of self_loop 1 ?x] by (simp add: self_loop_def)
  have i: "free_node 1 ?s1 = (case free_edges [Edge_weight 1 [2]] ?s1 of
                               Inl e \<Rightarrow> Inl e | Inr d' \<Rightarrow> Inr (erase 1 d'))"
    using dec_ref_free_node_cascade [of ?s1 1 "?x\<lparr>ref_count := 0\<rparr>"]
    by (simp add: put_node_def)
  have j: "dec_ref 1 ?s1 = Inl (UseAfterFree 1)"
    using dec_ref_free_node_cascade [of ?s1 1 "?x\<lparr>ref_count := 0\<rparr>"]
    by (simp add: put_node_def)
  have k0: "free_edges [Edge_weight 1 [2]] ?s1
       = (case dec_ref 1 ?s1 of Inl e \<Rightarrow> Inl e | Inr d' \<Rightarrow> Inr d')"
    by (simp add: Edge_weight_def split: sum.splits)
  have k: "dec_ref 1 self_loop = Inl (UseAfterFree 1)"
    by (simp only: h i j k0 sum.case)
  from a g k show ?thesis by blast
qed

section \<open>The search spares what is scheduled\<close>

text \<open>What the search changes: the scheduled set grows, a node that was scheduled before
  is left as it was, a node that is newly scheduled has its gradient cleared (when asked),
  and nothing else of the tape changes.\<close>

lemma rest_same_refl [simp]: "rest_same d d"
  by (simp add: rest_same_def)

lemma rest_same_fields:
  "rest_same d d' =
     (node_counter d' = node_counter d \<and> node_counter_last d' = node_counter_last d
      \<and> edge_contractions d' = edge_contractions d
      \<and> edge_contractions_last d' = edge_contractions_last d
      \<and> edge_merges d' = edge_merges d \<and> edge_merges_last d' = edge_merges_last d
      \<and> prefix d' = prefix d \<and> scatter_gather_index d' = scatter_gather_index d
      \<and> scatter_gather_size d' = scatter_gather_size d
      \<and> scatter_gather_permute d' = scatter_gather_permute d
      \<and> log_level d' = log_level d \<and> contract_edges d' = contract_edges d)"
  unfolding rest_same_def by (cases d; cases d') auto

lemma rest_same_trans: "rest_same d d1 \<Longrightarrow> rest_same d1 d2 \<Longrightarrow> rest_same d d2"
  by (simp add: rest_same_fields)

lemma rest_same_put_node [simp]: "rest_same d (put_node k n d)"
  by (simp add: rest_same_def put_node_def)

lemma rest_same_scheduled [simp]: "rest_same d (d\<lparr>scheduled := S\<rparr>)"
  by (simp add: rest_same_def)

lemma dfs_frame:
  "dfs k cg d = Inr d' \<Longrightarrow>
     scheduled (d::'a::zero Detail) \<subseteq> scheduled d'
     \<and> (\<forall>j. nodes d' j =
            (if cg \<and> j \<in> scheduled d' - scheduled d
             then map_option (\<lambda>n. n\<lparr>grad := zero (unat (node_size n))\<rparr>) (nodes d j)
             else nodes d j))
     \<and> rest_same d d'"
  "dfs_edges es cg d = Inr d' \<Longrightarrow>
     scheduled d \<subseteq> scheduled d'
     \<and> (\<forall>j. nodes d' j =
            (if cg \<and> j \<in> scheduled d' - scheduled d
             then map_option (\<lambda>n. n\<lparr>grad := zero (unat (node_size n))\<rparr>) (nodes d j)
             else nodes d j))
     \<and> rest_same d d'"
proof (induction k cg d and es cg d arbitrary: d' and d' rule: dfs_dfs_edges.induct)
  case (1 k cg d)
  show ?case
  proof (cases "k \<in> scheduled d")
    case True
    with 1(2) show ?thesis by (simp add: dfs.simps)
  next
    case False
    let ?d1 = "d\<lparr>scheduled := insert k (scheduled d)\<rparr>"
    from 1(2) False obtain n where n: "node ?d1 k = Inr n"
      and r: "dfs_edges (edges n) cg
                (if cg then put_node k (n\<lparr>grad := zero (unat (node_size n))\<rparr>) ?d1 else ?d1) = Inr d'"
      by (auto simp: dfs.simps [of k cg d] split: sum.splits)
    from n have nk: "nodes d k = Some n" by (auto simp: node_def split: option.splits)
    note ih = 1(1) [OF False n r]
    show ?thesis
    proof (cases cg)
      case True
      with ih have s: "insert k (scheduled d) \<subseteq> scheduled d'"
        and nd: "\<forall>j. nodes d' j =
            (if j \<in> scheduled d' - insert k (scheduled d)
             then map_option (\<lambda>n. n\<lparr>grad := zero (unat (node_size n))\<rparr>)
                    (((nodes d)(k \<mapsto> n\<lparr>grad := zero (unat (node_size n))\<rparr>)) j)
             else ((nodes d)(k \<mapsto> n\<lparr>grad := zero (unat (node_size n))\<rparr>)) j)"
        by (simp_all add: put_node_def)
      from ih True have "rest_same (put_node k (n\<lparr>grad := zero (unat (node_size n))\<rparr>) ?d1) d'"
        by simp
      then have fr: "rest_same d d'"
        by (rule rest_same_trans [OF rest_same_trans [OF rest_same_scheduled rest_same_put_node]])
      from s have a: "scheduled d \<subseteq> scheduled d'" by blast
      have b: "\<forall>j. nodes d' j =
            (if cg \<and> j \<in> scheduled d' - scheduled d
             then map_option (\<lambda>n. n\<lparr>grad := zero (unat (node_size n))\<rparr>) (nodes d j)
             else nodes d j)"
        using nd s False nk True by auto
      from a b fr show ?thesis by blast
    next
      case F: False
      with ih have "rest_same ?d1 d'" by simp
      then have "rest_same d d'" by (rule rest_same_trans [OF rest_same_scheduled])
      with F ih show ?thesis by auto
    qed
  qed
next
  case (2 cg d)
  then show ?case by simp
next
  case (3 edge rest cg d)
  from 3(3) obtain d1 where d1: "dfs (source edge) cg d = Inr d1"
      "dfs_edges rest cg d1 = Inr d'"
    by (auto split: sum.splits)
  note a = 3(1) [OF d1(1)] and b = 3(2) [OF d1(1) d1(2)]
  from a b have s: "scheduled d \<subseteq> scheduled d1" "scheduled d1 \<subseteq> scheduled d'" by blast+
  from a b have fr: "rest_same d d'" by (blast intro: rest_same_trans)
  have n: "\<forall>j. nodes d' j =
            (if cg \<and> j \<in> scheduled d' - scheduled d
             then map_option (\<lambda>n. n\<lparr>grad := zero (unat (node_size n))\<rparr>) (nodes d j)
             else nodes d j)"
  proof
    fix j
    from a have aj: "nodes d1 j =
            (if cg \<and> j \<in> scheduled d1 - scheduled d
             then map_option (\<lambda>n. n\<lparr>grad := zero (unat (node_size n))\<rparr>) (nodes d j)
             else nodes d j)" by blast
    from b have bj: "nodes d' j =
            (if cg \<and> j \<in> scheduled d' - scheduled d1
             then map_option (\<lambda>n. n\<lparr>grad := zero (unat (node_size n))\<rparr>) (nodes d1 j)
             else nodes d1 j)" by blast
    show "nodes d' j =
            (if cg \<and> j \<in> scheduled d' - scheduled d
             then map_option (\<lambda>n. n\<lparr>grad := zero (unat (node_size n))\<rparr>) (nodes d j)
             else nodes d j)"
      using aj bj s by (auto split: if_splits)
  qed
  from s n fr show ?case by blast
qed


lemma dfs_root_scheduled:
  "dfs k cg d = Inr d' \<Longrightarrow> k \<in> scheduled (d'::'a::zero Detail)"
proof (cases "k \<in> scheduled d")
  case True
  assume "dfs k cg d = Inr d'"
  with True show ?thesis by (simp add: dfs.simps)
next
  case False
  assume r: "dfs k cg d = Inr d'"
  let ?d1 = "d\<lparr>scheduled := insert k (scheduled d)\<rparr>"
  from r False obtain n where
    "dfs_edges (edges n) cg
       (if cg then put_node k (n\<lparr>grad := zero (unat (node_size n))\<rparr>) ?d1 else ?d1) = Inr d'"
    by (auto simp: dfs.simps [of k cg d] split: sum.splits)
  from dfs_frame(2) [OF this] show ?thesis by (auto split: if_splits)
qed

text \<open>
  C1 (amended). The search tests the scheduled set first: at a node that is already
  scheduled it returns at once and clears nothing. So a \<open>set_gradient\<close> that returns
  leaves every node that an earlier call scheduled exactly as it was (but for the seed
  itself), clears the gradient of exactly the nodes it newly schedules, to zero of their
  size, leaves the nodes it does not schedule alone, and then writes the seed value into
  the gradient of the seeded node. Nothing but nodes and the scheduled set changes.
\<close>

theorem set_gradient_spares_scheduled:
  fixes d :: "'a::zero Detail"
  assumes "set_gradient index val d = Inr d'"
  shows "index \<noteq> 0 \<and> index \<in> scheduled d' \<and> scheduled d \<subseteq> scheduled d'
       \<and> (\<forall>j\<in>scheduled d. j \<noteq> index \<longrightarrow> nodes d' j = nodes d j)
       \<and> (\<forall>j\<in>scheduled d' - scheduled d. j \<noteq> index \<longrightarrow>
             nodes d' j = map_option (\<lambda>n. n\<lparr>grad := zero (unat (node_size n))\<rparr>) (nodes d j))
       \<and> (\<forall>j. j \<notin> scheduled d' \<longrightarrow> nodes d' j = nodes d j)
       \<and> (\<exists>n. nodes d index = Some n \<and> nodes d' index = Some (n\<lparr>grad := val\<rparr>))
       \<and> rest_same d d'"
proof -
  from assms have nz: "index \<noteq> 0" by (auto simp: set_gradient_def split: if_splits)
  with assms obtain d1 n1 where d1: "dfs index True d = Inr d1"
    and n1: "nodes d1 index = Some n1" and d': "d' = put_node index (n1\<lparr>grad := val\<rparr>) d1"
    by (auto simp: set_gradient_def node_def split: sum.splits option.splits)
  note fr = dfs_frame(1) [OF d1] and root = dfs_root_scheduled [OF d1]
  from fr have nd: "nodes d1 j =
            (if j \<in> scheduled d1 - scheduled d
             then map_option (\<lambda>n. n\<lparr>grad := zero (unat (node_size n))\<rparr>) (nodes d j)
             else nodes d j)" for j by simp
  from nd [of index] n1
  have "\<exists>n. nodes d index = Some n \<and> (n1 = n \<or> n1 = n\<lparr>grad := zero (unat (node_size n))\<rparr>)"
    by (cases "nodes d index") (auto split: if_splits)
  then obtain n where n: "nodes d index = Some n"
      "n1 = n \<or> n1 = n\<lparr>grad := zero (unat (node_size n))\<rparr>"
    by blast
  then have "n1\<lparr>grad := val\<rparr> = n\<lparr>grad := val\<rparr>" by auto
  with n(1) have seed: "\<exists>n. nodes d index = Some n \<and> nodes d' index = Some (n\<lparr>grad := val\<rparr>)"
    by (simp add: d' put_node_def)
  have rs: "rest_same d d'"
    using fr by (auto simp: d' intro: rest_same_trans)
  have sch: "scheduled d' = scheduled d1" by (simp add: d')
  have oth: "j \<noteq> index \<Longrightarrow> nodes d' j = nodes d1 j" for j by (simp add: d' put_node_def)
  have c1: "\<forall>j\<in>scheduled d. j \<noteq> index \<longrightarrow> nodes d' j = nodes d j"
    by (simp add: oth nd)
  have c2: "\<forall>j\<in>scheduled d' - scheduled d. j \<noteq> index \<longrightarrow>
             nodes d' j = map_option (\<lambda>n. n\<lparr>grad := zero (unat (node_size n))\<rparr>) (nodes d j)"
    by (simp add: oth nd sch)
  have c3: "\<forall>j. j \<notin> scheduled d' \<longrightarrow> nodes d' j = nodes d j"
  proof (intro allI impI)
    fix j assume j: "j \<notin> scheduled d'"
    with root have "j \<noteq> index" by (auto simp: sch)
    with j show "nodes d' j = nodes d j" by (simp add: oth nd sch)
  qed
  from fr have c4: "scheduled d \<subseteq> scheduled d'" by (simp add: sch)
  from root have c5: "index \<in> scheduled d'" by (simp add: sch)
  from nz c5 c4 c1 c2 c3 seed rs show ?thesis by blast
qed

lemma chain_seeded_reached:
  "do_calls 0 [Append_leaf 1, Append_1 ''mul'' 1 1 [2], Dec_ref 1, Set_gradient 1 [5]] Detail_new
     = Some (Inr chain_seeded)"
  by (simp add: chain_seeded_def Detail_new_def append_leaf_def append_node_def
      inc_ref_def node_def put_node_def Node_new_def append_1_def append_edge_def drop_index_def
      has_special_def degree_def Node_append_edge_def Edge_weight_def zero_def fun_upd_twist
      dec_ref.simps set_gradient_def dfs.simps)

theorem set_gradient_spares_scheduled_witness:
  "observe (grad_at 1) (Some (set_gradient 2 [7] chain_seeded)) = Some (Inr [5])
   \<and> observe (grad_at 2) (Some (set_gradient 2 [7] chain_seeded)) = Some (Inr [7])
   \<and> observe scheduled (Some (set_gradient 2 [7] chain_seeded)) = Some (Inr {1, 2})"
proof -
  obtain d' where d': "set_gradient 2 [7] chain_seeded = Inr d'" and s: "scheduled d' = {1, 2}"
    by (auto simp: chain_seeded_def Detail_new_def set_gradient_def dfs.simps node_def put_node_def
        Edge_weight_def)
  note th = set_gradient_spares_scheduled [OF d']
  have "(1::Index) \<in> scheduled chain_seeded" by (simp add: chain_seeded_def)
  with th have "nodes d' 1 = nodes chain_seeded 1" by auto
  then have a: "grad_at 1 d' = [5]" by (simp add: grad_at_def chain_seeded_def)
  from th have b: "grad_at 2 d' = [7]" by (auto simp: grad_at_def)
  from a b s show ?thesis by (simp add: observe_def d')
qed

text \<open>
  C1 as stated fails: after \<open>set_gradient 1 [5]\<close>, the call \<open>set_gradient 2 [7]\<close> reaches
  node 1 through the edge of node 2, finds it scheduled, and leaves its gradient \<open>[5]\<close>;
  the gradient is not cleared to zero again.
\<close>

theorem set_gradient_rezero_counterexample:
  "observe (grad_at 1)
     (do_calls 0 [Append_leaf 1, Append_1 ''mul'' 1 1 [2], Set_gradient 1 [5::int], Set_gradient 2 [7]]
        Detail_new) = Some (Inr [5])
   \<and> observe (grad_at 1)
     (do_calls 0 [Append_leaf 1, Append_1 ''mul'' 1 1 [2], Set_gradient 1 [5::int], Set_gradient 2 [7]]
        Detail_new) \<noteq> Some (Inr (zero 1))"
  by (simp add: observe_def grad_at_def Detail_new_def append_leaf_def append_node_def
      inc_ref_def node_def put_node_def Node_new_def append_1_def append_edge_def drop_index_def
      has_special_def degree_def Node_append_edge_def Edge_weight_def zero_def
      set_gradient_def dfs.simps)

section \<open>Graphviz clears the schedule\<close>

lemma dfs_roots_frame:
  "dfs_roots rs d = Inr d' \<Longrightarrow>
     scheduled (d::'a::zero Detail) \<subseteq> scheduled d' \<and> nodes d' = nodes d \<and> rest_same d d'"
proof (induction rs arbitrary: d)
  case Nil
  then show ?case by simp
next
  case (Cons r rs)
  from Cons.prems obtain d1 where d1: "dfs r False d = Inr d1" "dfs_roots rs d1 = Inr d'"
    by (auto split: sum.splits)
  from dfs_frame(1) [OF d1(1)] have "scheduled d \<subseteq> scheduled d1" "nodes d1 = nodes d"
      "rest_same d d1"
    by auto
  with Cons.IH [OF d1(2)] show ?case by (auto intro: rest_same_trans)
qed

text \<open>
  C9. A \<open>graphviz\<close> that returns has searched into the scheduled set of the tape and has
  then cleared it, whatever was scheduled before; it changes no node (its search clears
  no gradient) and nothing else of the tape. The sweep order of the state it leaves is
  empty, so a \<open>backward\<close> that follows returns without touching a node.
\<close>

theorem graphviz_clears_scheduled:
  fixes d :: "'a::{zero,plus,times} Detail"
  assumes "graphviz roots d = Inr d'"
  shows "d' = d\<lparr>scheduled := {}\<rparr> \<and> scheduled d' = {} \<and> nodes d' = nodes d
       \<and> sweep_order d' = []
       \<and> (\<exists>d''. backward free_graph d' = Inr d'' \<and> nodes d'' = nodes d \<and> scheduled d'' = {})"
proof -
  from assms obtain d1 where d1: "dfs_roots roots d = Inr d1" and d': "d' = d1\<lparr>scheduled := {}\<rparr>"
    by (auto simp: graphviz_def split: sum.splits option.splits)
  from dfs_roots_frame [OF d1] have n: "nodes d1 = nodes d" and rs: "rest_same d d1" by auto
  from rs n have "d1\<lparr>scheduled := {}\<rparr> = d\<lparr>scheduled := {}\<rparr>"
    by (cases d; cases d1) (simp add: rest_same_fields)
  with d' have a: "d' = d\<lparr>scheduled := {}\<rparr>" by simp
  then have b: "scheduled d' = {}" "nodes d' = nodes d" by simp_all
  then have c: "sweep_order d' = []" by (simp add: sweep_order_def)
  have "\<exists>d''. backward free_graph d' = Inr d'' \<and> nodes d'' = nodes d \<and> scheduled d'' = {}"
    using b by (simp add: backward_def c)
  with a b c show ?thesis by blast
qed

theorem graphviz_clears_scheduled_witness:
  "scheduled chain_seeded = {1}
   \<and> observe scheduled (Some (graphviz [2] chain_seeded)) = Some (Inr {})
   \<and> observe (grad_at 1) (Some (graphviz [2] chain_seeded)) = Some (Inr [5])
   \<and> observe (grad_at 2) (Some (graphviz [2] chain_seeded)) = Some (Inr [])"
proof -
  have "\<exists>d'. graphviz [2] chain_seeded = Inr d'"
    by (simp add: graphviz_def chain_seeded_def Detail_new_def dfs.simps node_def
        Edge_weight_def insert_commute)
  then obtain d' where d': "graphviz [2] chain_seeded = Inr d'" by blast
  from graphviz_clears_scheduled [OF d'] have "d' = chain_seeded\<lparr>scheduled := {}\<rparr>" by blast
  then show ?thesis
    by (simp add: d' observe_def grad_at_def) (simp add: chain_seeded_def)
qed

section \<open>What append_edge leaves alone, and the gradient of a new node\<close>

lemma settings_fields:
  fixes d d' :: "'a Detail"
  shows "(d'\<lparr>nodes := nodes d, edge_contractions := edge_contractions d,
        edge_merges := edge_merges d\<rparr> = d) =
     (node_counter d' = node_counter d \<and> node_counter_last d' = node_counter_last d
      \<and> edge_contractions_last d' = edge_contractions_last d
      \<and> edge_merges_last d' = edge_merges_last d
      \<and> prefix d' = prefix d \<and> scatter_gather_index d' = scatter_gather_index d
      \<and> scatter_gather_size d' = scatter_gather_size d
      \<and> scatter_gather_permute d' = scatter_gather_permute d
      \<and> log_level d' = log_level d \<and> contract_edges d' = contract_edges d
      \<and> scheduled d' = scheduled d)"
  by (cases d; cases d') auto

lemma edge_frame_refl [simp]: "edge_frame t d d"
  by (simp add: edge_frame_def)

lemma edge_frame_trans:
  assumes "edge_frame t d d1" and "edge_frame t d1 d2"
  shows "edge_frame t d d2"
proof -
  have 1: "dom (nodes d2) = dom (nodes d)"
    using assms by (simp add: edge_frame_def)
  have 2: "\<forall>i n. nodes d i = Some n \<longrightarrow>
            (\<exists>n'. nodes d2 i = Some n' \<and> label n' = label n \<and> grad n' = grad n
                  \<and> node_size n' = node_size n \<and> (i \<noteq> t \<longrightarrow> edges n' = edges n))"
  proof (intro allI impI)
    fix i n assume "nodes d i = Some n"
    with assms(1) obtain n1 where n1: "nodes d1 i = Some n1" "label n1 = label n"
        "grad n1 = grad n" "node_size n1 = node_size n" "i \<noteq> t \<longrightarrow> edges n1 = edges n"
      unfolding edge_frame_def by blast
    from assms(2) n1(1) obtain n2 where "nodes d2 i = Some n2" "label n2 = label n1"
        "grad n2 = grad n1" "node_size n2 = node_size n1" "i \<noteq> t \<longrightarrow> edges n2 = edges n1"
      unfolding edge_frame_def by blast
    with n1 show "\<exists>n'. nodes d2 i = Some n' \<and> label n' = label n \<and> grad n' = grad n
                  \<and> node_size n' = node_size n \<and> (i \<noteq> t \<longrightarrow> edges n' = edges n)"
      by simp
  qed
  have 3: "d2\<lparr>nodes := nodes d, edge_contractions := edge_contractions d,
             edge_merges := edge_merges d\<rparr> = d"
    using assms unfolding edge_frame_def settings_fields by simp
  from 1 2 3 show ?thesis unfolding edge_frame_def by blast
qed

lemma edge_frame_counters:
  "edge_frame t d (d\<lparr>edge_contractions := x\<rparr>)" "edge_frame t d (d\<lparr>edge_merges := y\<rparr>)"
  by (simp_all add: edge_frame_def)

lemma edge_frame_put_target:
  "nodes d t = Some n \<Longrightarrow> label n' = label n \<Longrightarrow> grad n' = grad n \<Longrightarrow>
   node_size n' = node_size n \<Longrightarrow> edge_frame t d (put_node t n' d)"
  by (auto simp: edge_frame_def put_node_def)

lemma edge_frame_inc_ref:
  "inc_ref s d = Inr d' \<Longrightarrow> edge_frame t d d'"
  by (auto simp: inc_ref_def node_def edge_frame_def put_node_def
      split: if_splits option.splits)

lemma contract_loop_invariant:
  assumes "contract_loop call es d = Some (Inr d')" and "Q d"
    and "\<And>e x x'. e \<in> set es \<Longrightarrow> Q x \<Longrightarrow> call (source e) (weight e) x = Some (Inr x') \<Longrightarrow>
           Q (x'\<lparr>edge_contractions := edge_contractions x' + 1\<rparr>)"
  shows "Q d'"
  using assms
proof (induction es arbitrary: d)
  case Nil
  then show ?case by simp
next
  case (Cons e es)
  from Cons.prems(1) obtain x' where x': "call (source e) (weight e) d = Some (Inr x')"
    and r: "contract_loop call es (x'\<lparr>edge_contractions := edge_contractions x' + 1\<rparr>)
              = Some (Inr d')"
    by (auto split: option.splits sum.splits)
  from Cons.prems(3) [OF _ Cons.prems(2) x'] have "Q (x'\<lparr>edge_contractions := edge_contractions x' + 1\<rparr>)"
    by simp
  then show ?case
    by (rule Cons.IH [OF r]) (rule Cons.prems(3), simp_all)
qed

lemma merge_or_new_frame:
  assumes "nodes d t = Some target"
    and "(case merge_into s f (edges target) of
            Some es \<Rightarrow> Some (Inr ((put_node t (target\<lparr>edges := es\<rparr>) d)
                                   \<lparr>edge_merges := edge_merges d + 1\<rparr>))
          | None \<Rightarrow> Some (inc_ref s (put_node t (Node_append_edge target (Edge_weight s w)) d)))
         = Some (Inr d')"
  shows "edge_frame t d d'"
proof (cases "merge_into s f (edges target)")
  case (Some es)
  with assms(2) have d': "d' = (put_node t (target\<lparr>edges := es\<rparr>) d)\<lparr>edge_merges := edge_merges d + 1\<rparr>"
    by simp
  have "edge_frame t d (put_node t (target\<lparr>edges := es\<rparr>) d)"
    by (rule edge_frame_put_target [OF assms(1)]) simp_all
  then show ?thesis
    unfolding d' by (rule edge_frame_trans) (simp add: edge_frame_def)
next
  case None
  let ?d1 = "put_node t (Node_append_edge target (Edge_weight s w)) d"
  from None assms(2) have "inc_ref s ?d1 = Inr d'" by simp
  then have "edge_frame t ?d1 d'" by (rule edge_frame_inc_ref)
  moreover have "edge_frame t d ?d1"
    by (rule edge_frame_put_target [OF assms(1)]) (simp_all add: Node_append_edge_def)
  ultimately show ?thesis by (blast intro: edge_frame_trans)
qed

lemma append_edge_prod_frame:
  "append_edge_prod fuel s t w1 w2 d = Some (Inr d') \<Longrightarrow> edge_frame t d d'"
proof (induction fuel arbitrary: s w1 w2 d d')
  case 0
  then show ?case by simp
next
  case (Suc fuel)
  show ?case
  proof (cases "s = 0")
    case True
    with Suc.prems show ?thesis by simp
  next
    case False
    with Suc.prems obtain src target where st: "t \<noteq> 0" "nodes d s = Some src"
        "nodes d t = Some target"
      by (auto simp: node_def split: if_splits option.splits)
    show ?thesis
    proof (cases "\<not> has_special src \<and> node_size src = node_size target
                  \<and> 0 < degree src \<and> contract_edges d")
      case True
      with Suc.prems False st
      have "contract_loop (\<lambda>s' w d'. append_edge_prod fuel s' t (safe_mul w1 w2) w d')
              (edges src) d = Some (Inr d')"
        by (simp add: node_def)
      then show ?thesis
      proof (rule contract_loop_invariant [where Q = "edge_frame t d"])
        show "edge_frame t d d" by simp
      next
        fix e x x'
        assume "edge_frame t d x"
          and "append_edge_prod fuel (source e) t (safe_mul w1 w2) (weight e) x = Some (Inr x')"
        with Suc.IH have "edge_frame t d x'" by (blast intro: edge_frame_trans)
        then show "edge_frame t d (x'\<lparr>edge_contractions := edge_contractions x' + 1\<rparr>)"
          by (rule edge_frame_trans) (rule edge_frame_counters)
      qed
    next
      case F: False
      with Suc.prems False st
      have "(case merge_into s (\<lambda>w. safe_fmadd w1 w2 w) (edges target) of
            Some es \<Rightarrow> Some (Inr ((put_node t (target\<lparr>edges := es\<rparr>) d)
                                   \<lparr>edge_merges := edge_merges d + 1\<rparr>))
          | None \<Rightarrow> Some (inc_ref s (put_node t
                     (Node_append_edge target (Edge_weight s (safe_mul w1 w2))) d)))
         = Some (Inr d')"
        by (simp add: node_def)
      then show ?thesis by (rule merge_or_new_frame [OF st(3)])
    qed
  qed
qed

lemma append_edge_frame:
  assumes "append_edge fuel s t w d = Some (Inr d')"
  shows "edge_frame t d d'"
proof (cases "s = 0")
  case True
  with assms show ?thesis by (simp add: append_edge_def)
next
  case False
  with assms obtain src target where st: "t \<noteq> 0" "nodes d s = Some src"
      "nodes d t = Some target"
    by (auto simp: append_edge_def node_def split: if_splits option.splits)
  show ?thesis
  proof (cases "\<not> has_special src \<and> node_size src = node_size target
                \<and> 0 < degree src \<and> contract_edges d")
    case True
    with assms False st
    have "contract_loop (\<lambda>s' w' d'. append_edge_prod fuel s' t w w' d')
            (edges src) d = Some (Inr d')"
      by (simp add: append_edge_def node_def)
    then show ?thesis
    proof (rule contract_loop_invariant [where Q = "edge_frame t d"])
      show "edge_frame t d d" by simp
    next
      fix e x x'
      assume "edge_frame t d x"
        and "append_edge_prod fuel (source e) t w (weight e) x = Some (Inr x')"
      with append_edge_prod_frame have "edge_frame t d x'" by (blast intro: edge_frame_trans)
      then show "edge_frame t d (x'\<lparr>edge_contractions := edge_contractions x' + 1\<rparr>)"
        by (rule edge_frame_trans) (rule edge_frame_counters)
    qed
  next
    case F: False
    with assms False st
    have "(case merge_into s (\<lambda>w'. add w' w) (edges target) of
            Some es \<Rightarrow> Some (Inr ((put_node t (target\<lparr>edges := es\<rparr>) d)
                                   \<lparr>edge_merges := edge_merges d + 1\<rparr>))
          | None \<Rightarrow> Some (inc_ref s (put_node t
                     (Node_append_edge target (Edge_weight s w)) d)))
         = Some (Inr d')"
      by (simp add: append_edge_def node_def)
    then show ?thesis by (rule merge_or_new_frame [OF st(3)])
  qed
qed


lemma edge_frame_grad:
  assumes "edge_frame t d d'"
  shows "grad_at i d' = grad_at i d"
proof (cases "nodes d i")
  case None
  with assms have "nodes d' i = None" unfolding edge_frame_def by (metis domIff)
  with None show ?thesis by (simp add: grad_at_def)
next
  case (Some n)
  with assms obtain n' where "nodes d' i = Some n'" "grad n' = grad n"
    unfolding edge_frame_def by blast
  with Some show ?thesis by (simp add: grad_at_def)
qed

lemma append_node_fresh:
  assumes "node_counter d \<noteq> 0" and "nodes d (node_counter d) = None"
  shows "\<exists>d0. append_node sz lbl d = Inr (node_counter d, d0)
           \<and> nodes d0 = (nodes d)(node_counter d \<mapsto>
                 \<lparr>label = fold (\<lambda>p l. p @ ''/'' @ l) (rev (prefix d)) lbl, grad = [],
                  edges = [], ref_count = 1, node_size = of_nat sz\<rparr>)
           \<and> d0\<lparr>nodes := nodes d, node_counter := node_counter d\<rparr> = d
           \<and> node_counter d0 = node_counter d + 1"
  using assms
  by (simp add: append_node_def Let_def inc_ref_def node_def put_node_def Node_new_def)

text \<open>
  C10 (amended). On a tape whose counter names an index that is not \<open>0\<close> and not stored,
  \<open>append_leaf sz\<close> with \<open>sz < 2^32\<close> returns that index, and \<open>gradient\<close> of it is at once
  the zero value of \<open>sz\<close> lanes; whatever \<open>sz\<close> is, it is the zero value of \<open>sz mod 2^32\<close>
  lanes, the size the node stores. An \<open>append\<close> that returns a node returns that index with
  the default-constructed (empty) gradient, and a search with \<open>clear_grad\<close> that newly
  schedules a stored node leaves it with the zero gradient of its size.
\<close>

theorem append_leaf_zero_grad:
  fixes d :: "'a::{zero,plus,times} Detail"
  assumes "node_counter d \<noteq> 0" and "nodes d (node_counter d) = None"
  shows "(\<exists>d'. append_leaf sz d = Inr (node_counter d, d')
              \<and> gradient (node_counter d) d' = Inr (zero (sz mod 2 ^ 32))
              \<and> (sz < 2 ^ 32 \<longrightarrow> gradient (node_counter d) d' = Inr (zero sz)))
       \<and> (append_1 fuel lbl sz i1 w1 d = Some (Inr (idx, d1)) \<and> idx \<noteq> 0 \<longrightarrow>
            idx = node_counter d \<and> gradient idx d1 = Inr [])
       \<and> (append_2 fuel lbl sz i1 i2 w1 w2 d = Some (Inr (idx, d2)) \<and> idx \<noteq> 0 \<longrightarrow>
            idx = node_counter d \<and> gradient idx d2 = Inr [])
       \<and> (append_3 fuel lbl sz i1 i2 i3 w1 w2 w3 d = Some (Inr (idx, d3)) \<and> idx \<noteq> 0 \<longrightarrow>
            idx = node_counter d \<and> gradient idx d3 = Inr [])
       \<and> (nodes x k = Some n \<and> k \<notin> scheduled x \<and> dfs k True x = Inr x' \<longrightarrow>
            grad_at k x' = zero (unat (node_size n)))"
proof -
  let ?c = "node_counter d"
  have leaf: "\<exists>d'. append_leaf sz d = Inr (?c, d')
              \<and> gradient ?c d' = Inr (zero (sz mod 2 ^ 32))
              \<and> (sz < 2 ^ 32 \<longrightarrow> gradient ?c d' = Inr (zero sz))"
  proof -
    from append_node_fresh [OF assms, of sz "quoted ''unnamed''"]
    obtain d0 where d0: "append_node sz (quoted ''unnamed'') d = Inr (?c, d0)"
      "nodes d0 = (nodes d)(?c \<mapsto>
         \<lparr>label = fold (\<lambda>p l. p @ ''/'' @ l) (rev (prefix d)) (quoted ''unnamed''),
          grad = [], edges = [], ref_count = 1, node_size = of_nat sz\<rparr>)"
      by blast
    have u: "unat (of_nat sz :: 32 word) = sz mod 2 ^ 32"
      by (simp add: unat_of_nat)
    from d0 assms(1) u show ?thesis
      by (simp add: append_leaf_def node_def put_node_def gradient_def)
  qed
  have fresh_grad: "grad_at ?c d0 = []" "nodes d0 ?c \<noteq> None"
    if "append_node sz lbl d = Inr (i, d0)" for i d0
    using that append_node_fresh [OF assms, of sz lbl] by (auto simp: grad_at_def)
  have idx: "i = ?c" if "append_node sz lbl d = Inr (i, d0)" for i d0
    using that append_node_fresh [OF assms, of sz lbl] by auto
  have keep: "gradient ?c y = Inr []"
    if "edge_frame ?c d0 y" "append_node sz lbl d = Inr (i, d0)" for i d0 y
  proof -
    from that(1) have "grad_at ?c y = grad_at ?c d0" by (rule edge_frame_grad)
    with fresh_grad(1) [OF that(2)] have g: "grad_at ?c y = []" by simp
    from that(1) fresh_grad(2) [OF that(2)] have "nodes y ?c \<noteq> None"
      unfolding edge_frame_def by (metis domIff)
    with g assms(1) show ?thesis
      by (auto simp: gradient_def node_def grad_at_def split: option.splits)
  qed
  have a1: "append_1 fuel lbl sz i1 w1 d = Some (Inr (idx, d1)) \<and> idx \<noteq> 0 \<longrightarrow>
            idx = ?c \<and> gradient idx d1 = Inr []"
  proof (intro impI, elim conjE)
    assume r: "append_1 fuel lbl sz i1 w1 d = Some (Inr (idx, d1))" and nz: "idx \<noteq> 0"
    then obtain d0 where d0: "append_node sz lbl d = Inr (idx, d0)"
        and e1: "append_edge fuel i1 idx w1 d0 = Some (Inr d1)"
      by (auto simp: append_1_def split: if_splits sum.splits option.splits)
    from idx [OF d0] have i: "idx = ?c" .
    from append_edge_frame [OF e1] i have "edge_frame ?c d0 d1" by simp
    from keep [OF this] d0 i show "idx = ?c \<and> gradient idx d1 = Inr []" by simp
  qed
  have a2: "append_2 fuel lbl sz i1 i2 w1 w2 d = Some (Inr (idx, d2)) \<and> idx \<noteq> 0 \<longrightarrow>
            idx = ?c \<and> gradient idx d2 = Inr []"
  proof (intro impI, elim conjE)
    assume r: "append_2 fuel lbl sz i1 i2 w1 w2 d = Some (Inr (idx, d2))" and nz: "idx \<noteq> 0"
    then obtain d0 y1 where d0: "append_node sz lbl d = Inr (idx, d0)"
        and e1: "append_edge fuel i1 idx w1 d0 = Some (Inr y1)"
        and e2: "append_edge fuel i2 idx w2 y1 = Some (Inr d2)"
      by (auto simp: append_2_def split: if_splits sum.splits option.splits)
    from idx [OF d0] have i: "idx = ?c" .
    from append_edge_frame [OF e1] append_edge_frame [OF e2] i have "edge_frame ?c d0 d2"
      by (auto intro: edge_frame_trans)
    from keep [OF this] d0 i show "idx = ?c \<and> gradient idx d2 = Inr []" by simp
  qed
  have a3: "append_3 fuel lbl sz i1 i2 i3 w1 w2 w3 d = Some (Inr (idx, d3)) \<and> idx \<noteq> 0 \<longrightarrow>
            idx = ?c \<and> gradient idx d3 = Inr []"
  proof (intro impI, elim conjE)
    assume r: "append_3 fuel lbl sz i1 i2 i3 w1 w2 w3 d = Some (Inr (idx, d3))" and nz: "idx \<noteq> 0"
    then obtain d0 y1 y2 where d0: "append_node sz lbl d = Inr (idx, d0)"
        and e1: "append_edge fuel i1 idx w1 d0 = Some (Inr y1)"
        and e2: "append_edge fuel i2 idx w2 y1 = Some (Inr y2)"
        and e3: "append_edge fuel i3 idx w3 y2 = Some (Inr d3)"
      by (auto simp: append_3_def split: if_splits sum.splits option.splits)
    from idx [OF d0] have i: "idx = ?c" .
    from append_edge_frame [OF e1] append_edge_frame [OF e2] append_edge_frame [OF e3] i
    have "edge_frame ?c d0 d3"
      by (auto intro: edge_frame_trans)
    from keep [OF this] d0 i show "idx = ?c \<and> gradient idx d3 = Inr []" by simp
  qed
  have v: "nodes x k = Some n \<and> k \<notin> scheduled x \<and> dfs k True x = Inr x' \<longrightarrow>
            grad_at k x' = zero (unat (node_size n))"
  proof (intro impI, elim conjE)
    assume n: "nodes x k = Some n" and k: "k \<notin> scheduled x" and r: "dfs k True x = Inr x'"
    from dfs_root_scheduled [OF r] k dfs_frame(1) [OF r] n
    show "grad_at k x' = zero (unat (node_size n))"
      by (simp add: grad_at_def)
  qed
  from leaf a1 a2 a3 v show ?thesis by blast
qed

theorem append_leaf_zero_grad_witness:
  "node_counter two_leaves_sum \<noteq> 0 \<and> nodes two_leaves_sum (node_counter two_leaves_sum) = None
   \<and> map_sum id fst (append_leaf 3 two_leaves_sum) = Inr 4
   \<and> observe (gradient 4) (Some (map_sum id snd (append_leaf 3 two_leaves_sum)))
       = Some (Inr (Inr [0, 0, 0]))
   \<and> observe (gradient 4)
       (map_option (map_sum id snd) (append_1 0 ''mul'' 3 2 [6] two_leaves_sum))
       = Some (Inr (Inr []))"
proof -
  have h: "node_counter two_leaves_sum \<noteq> 0"
      "nodes two_leaves_sum (node_counter two_leaves_sum) = None"
    by (simp_all add: two_leaves_sum_def Detail_new_def)
  have c: "node_counter two_leaves_sum = 4" by (simp add: two_leaves_sum_def)
  have "\<exists>d1. append_1 0 ''mul'' 3 2 [6] two_leaves_sum = Some (Inr (4, d1))"
    by (simp add: append_1_def append_node_def two_leaves_sum_def Detail_new_def Let_def
        inc_ref_def node_def put_node_def Node_new_def append_edge_def has_special_def
        leaf_node_def degree_def Edge_weight_def Node_append_edge_def)
  then obtain d1 where d1: "append_1 0 ''mul'' 3 2 [6] two_leaves_sum = Some (Inr (4, d1))"
    by blast
  note th = append_leaf_zero_grad [OF h, where sz = 3 and fuel = 0 and lbl = "''mul''"
      and ?i1.0 = 2 and ?w1.0 = "[6]" and idx = 4 and ?d1.0 = d1]
  from th [THEN conjunct1] obtain d' where l: "append_leaf 3 two_leaves_sum = Inr (4, d')"
      "gradient 4 d' = Inr (zero 3)"
    by (auto simp: c)
  from th [THEN conjunct2, THEN conjunct1] d1 have a: "gradient 4 d1 = Inr []" by simp
  from h d1 l a show ?thesis by (simp add: observe_def zero_def numeral_3_eq_3)
qed

text \<open>
  C10 as stated fails for a size that does not fit 32 bits: the node stores the size cast
  to 32 bits, so a leaf of \<open>2^32\<close> lanes gets the gradient of \<open>0\<close> lanes.
\<close>

theorem append_leaf_size_counterexample:
  "observe (gradient 1) (Some (map_sum id snd (append_leaf 4294967296 Detail_new)))
     = Some (Inr (Inr ([]::int list)))
   \<and> length (zero 4294967296 :: int list) = 4294967296"
  by (simp add: observe_def append_leaf_def append_node_def Detail_new_def Let_def inc_ref_def
      node_def put_node_def Node_new_def gradient_def zero_def)

section \<open>What the sweep leaves alone\<close>

lemma kept_from_refl [simp]: "kept_from t d d"
  by (simp add: kept_from_def)

lemma kept_from_trans:
  assumes "kept_from t d d1" and "kept_from t d1 d2"
  shows "kept_from t d d2"
  unfolding kept_from_def
proof (intro allI impI)
  fix j n2 assume "nodes d2 j = Some n2"
  with assms(2) obtain n1 where n1: "nodes d1 j = Some n1"
      "edges n2 = edges n1 \<or> edges n2 = []" "t \<le> j \<longrightarrow> grad n2 = grad n1"
    unfolding kept_from_def by blast
  from assms(1) n1(1) obtain n where "nodes d j = Some n"
      "edges n1 = edges n \<or> edges n1 = []" "t \<le> j \<longrightarrow> grad n1 = grad n"
    unfolding kept_from_def by blast
  with n1 show "\<exists>n. nodes d j = Some n \<and> (edges n2 = edges n \<or> edges n2 = [])
             \<and> (t \<le> j \<longrightarrow> grad n2 = grad n)"
    by auto
qed

lemma kept_from_descend:
  "kept_from t d d' \<Longrightarrow> edges_descend d \<Longrightarrow> edges_descend d'"
  unfolding kept_from_def edges_descend_def by (metis empty_iff empty_set)

lemma kept_from_put_grad:
  "nodes d j = Some n \<Longrightarrow> j < t \<Longrightarrow> kept_from t d (put_node j (n\<lparr>grad := g\<rparr>) d)"
  by (auto simp: kept_from_def put_node_def)

lemma kept_from_put_edges:
  "nodes d j = Some n \<Longrightarrow> kept_from t d (put_node j (n\<lparr>edges := []\<rparr>) d)"
  by (auto simp: kept_from_def put_node_def)

lemma kept_from_put_ref:
  "nodes d j = Some n \<Longrightarrow> kept_from t d (put_node j (n\<lparr>ref_count := r\<rparr>) d)"
  by (auto simp: kept_from_def put_node_def)

lemma kept_from_erase:
  "kept_from t d (d\<lparr>nodes := (nodes d)(i := None)\<rparr>)"
  by (auto simp: kept_from_def)

lemma dec_ref_kept:
  "dec_ref i d = Inr d' \<Longrightarrow> kept_from t d (d'::'a Detail)"
  "free_node i d = Inr d' \<Longrightarrow> kept_from t d d'"
  "free_edges es d = Inr d' \<Longrightarrow> kept_from t d d'"
proof (induction i d and i d and es d arbitrary: d' and d' and d'
       rule: dec_ref_free_node_free_edges.induct)
  case (1 index d)
  show ?case
  proof (cases "index = 0")
    case True
    with 1(2) show ?thesis by (simp add: dec_ref.simps)
  next
    case False
    from 1(2) False obtain n where n: "node d index = Inr n" "ref_count n \<noteq> 0"
      by (auto simp: dec_ref.simps [of index d] split: sum.splits if_splits)
    then have nd: "nodes d index = Some n"
      by (auto simp: node_def split: option.splits)
    let ?d1 = "put_node index (n\<lparr>ref_count := ref_count n - 1\<rparr>) d"
    have k: "kept_from t d ?d1" by (rule kept_from_put_ref [OF nd])
    show ?thesis
    proof (cases "ref_count n - 1 = 0")
      case True
      with 1(2) False n have "free_node index ?d1 = Inr d'"
        by (simp add: dec_ref.simps [of index d])
      from 1(1) [OF False n(1) n(2) True this] k show ?thesis
        by (blast intro: kept_from_trans)
    next
      case F2: False
      with 1(2) False n have "d' = ?d1"
        by (simp add: dec_ref.simps [of index d])
      with k show ?thesis by simp
    qed
  qed
next
  case (2 index d)
  from 2(2) obtain n d1 where n: "nodes d index = Some n" "free_edges (edges n) d = Inr d1"
      "d' = d1\<lparr>nodes := (nodes d1)(index := None)\<rparr>"
    by (auto simp: free_node.simps [of index d] split: option.splits sum.splits)
  from 2(1) [OF n(1) n(2)] have "kept_from t d d1" .
  with kept_from_erase [of t d1 index] n(3) show ?case
    by (auto intro: kept_from_trans)
next
  case (3 d)
  then show ?case by simp
next
  case (4 edge rest d)
  from 4(3) obtain d1 where d1: "dec_ref (source edge) d = Inr d1" "free_edges rest d1 = Inr d'"
    by (auto split: sum.splits)
  from 4(1) [OF d1(1)] 4(2) [OF d1(1) d1(2)] show ?case
    by (blast intro: kept_from_trans)
qed

lemma compute_gradients_kept:
  "compute_gradients sp u e d = Inr d' \<Longrightarrow> source e < t \<Longrightarrow> kept_from t d d'"
  by (cases sp)
     (auto simp: node_def split: sum.splits option.splits if_splits
           intro!: kept_from_put_grad)

lemma sweep_edge_kept:
  assumes "sweep_edge u e d = Inr d'" and "source e < t"
  shows "kept_from t d d'"
proof (cases "special e")
  case None
  with assms show ?thesis
    by (auto simp: sweep_edge_def node_def split: sum.splits option.splits
             intro!: kept_from_put_grad)
next
  case (Some sp)
  with assms(1) have "compute_gradients sp u e d = Inr d'" by (simp add: sweep_edge_def)
  then show ?thesis using assms(2) by (rule compute_gradients_kept)
qed

lemma sweep_edges_kept:
  "sweep_edges fg u es d = Inr d' \<Longrightarrow> \<forall>e\<in>set es. source e < t \<Longrightarrow> kept_from t d d'"
proof (induction es arbitrary: d)
  case Nil
  then show ?case by simp
next
  case (Cons e es)
  from Cons.prems(1) obtain d1 d2 where s: "sweep_edge u e d = Inr d1"
      "(if fg then dec_ref (source e) d1 else Inr d1) = Inr d2"
      "sweep_edges fg u es d2 = Inr d'"
    by (auto split: sum.splits)
  from s(1) Cons.prems(2) have "kept_from t d d1" by (auto intro: sweep_edge_kept)
  moreover from s(2) have "kept_from t d1 d2"
    by (auto split: if_splits intro: dec_ref_kept(1))
  moreover from Cons.IH [OF s(3)] Cons.prems(2) have "kept_from t d2 d'" by simp
  ultimately show ?case by (blast intro: kept_from_trans)
qed

lemma sweep_target_kept:
  assumes "sweep_target fg u d = Inr d'" and "edges_descend d" and "u < t"
  shows "kept_from t d d'"
proof -
  from assms(1) obtain target where tg: "nodes d u = Some target"
    by (auto simp: sweep_target_def node_def split: option.splits sum.splits)
  let ?d0 = "if is_scalar target \<and> length (grad target) \<noteq> 1
             then put_node u (target\<lparr>grad := hsum (grad target)\<rparr>) d else d"
  from assms(1) tg obtain d1 where d1: "sweep_edges fg u (edges target) ?d0 = Inr d1"
    and r: "(if fg then (case node d1 u of Inl e \<Rightarrow> Inl e
                        | Inr t1 \<Rightarrow> dec_ref u (put_node u (t1\<lparr>edges := []\<rparr>) d1))
            else Inr d1) = Inr d'"
    by (auto simp: sweep_target_def node_def split: sum.splits)
  have k0: "kept_from t d ?d0"
    using tg assms(3) by (auto intro: kept_from_put_grad)
  from assms(2) tg assms(3) have "\<forall>e\<in>set (edges target). source e < t"
    unfolding edges_descend_def by (meson order.strict_trans)
  from sweep_edges_kept [OF d1 this] have k1: "kept_from t ?d0 d1" .
  have k2: "kept_from t d1 d'"
  proof (cases fg)
    case True
    with r obtain t1 where t1: "nodes d1 u = Some t1"
        "dec_ref u (put_node u (t1\<lparr>edges := []\<rparr>) d1) = Inr d'"
      by (auto simp: node_def split: option.splits sum.splits)
    from kept_from_put_edges [OF t1(1)] dec_ref_kept(1) [OF t1(2)] show ?thesis
      by (blast intro: kept_from_trans)
  next
    case False
    with r show ?thesis by simp
  qed
  from k0 k1 k2 show ?thesis by (blast intro: kept_from_trans)
qed

lemma sweep_kept:
  "sweep fg us d = Inr d' \<Longrightarrow> edges_descend d \<Longrightarrow> \<forall>u\<in>set us. u < t \<Longrightarrow> kept_from t d d'"
proof (induction us arbitrary: d)
  case Nil
  then show ?case by simp
next
  case (Cons u us)
  from Cons.prems(1) obtain d1 where s: "sweep_target fg u d = Inr d1" "sweep fg us d1 = Inr d'"
    by (auto split: sum.splits)
  from sweep_target_kept [OF s(1) Cons.prems(2)] Cons.prems(3)
  have k: "kept_from t d d1" by simp
  from kept_from_descend [OF k Cons.prems(2)] have "edges_descend d1" .
  from Cons.IH [OF s(2) this] Cons.prems(3) k show ?case
    by (auto intro: kept_from_trans)
qed

section \<open>The sweep runs from the largest index down\<close>

lemma sweep_order_descending:
  "sorted_wrt (\<lambda>a b. b < a) (sweep_order d) \<and> set (sweep_order d) = scheduled d"
proof -
  have "sorted_wrt (<) (sorted_list_of_set (scheduled d))"
    by (simp add: strict_sorted_iff)
  then have "sorted_wrt (\<lambda>a b. b < a) (rev (sorted_list_of_set (scheduled d)))"
    by (simp add: sorted_wrt_rev)
  then show ?thesis by (simp add: sweep_order_def)
qed

lemma broadcast_seeded_reached:
  "do_calls 0 [Append_leaf 1, Append_1 ''mul'' 4 1 (full 2 4), Set_gradient 2 [1, 1, 1, 1]]
     Detail_new = Some (Inr broadcast_seeded)"
  by (simp add: broadcast_seeded_def Detail_new_def append_leaf_def append_node_def
      inc_ref_def node_def put_node_def Node_new_def append_1_def append_edge_def drop_index_def
      has_special_def degree_def Node_append_edge_def Edge_weight_def zero_def full_def
      fun_upd_twist set_gradient_def dfs.simps insert_commute numeral_eq_Suc)

lemma sweep_order_broadcast_seeded: "sweep_order broadcast_seeded = [2, 1]"
proof -
  have "rev (sorted_list_of_set {1, 2::Index}) = [2, 1]" by code_simp
  then show ?thesis by (simp add: sweep_order_def broadcast_seeded_def)
qed


section \<open>Scatter into a buffer that is already differentiable\<close>








lemma buffer_and_source_reached:
  "do_calls 0 [Append_leaf 4, Append_leaf 2, Set_scatter_gather_operand (Some 1) 4 False]
     Detail_new = Some (Inr buffer_and_source)"
  by (simp add: buffer_and_source_def Detail_new_def append_leaf_def append_node_def
      inc_ref_def node_def put_node_def Node_new_def drop_index_def leaf_node_def
      set_scatter_gather_operand_def fun_upd_twist)


section \<open>The rewrites of append_edge keep the graph in order\<close>




lemma invariants_counters [simp]:
  "edges_descend (d\<lparr>edge_contractions := x\<rparr>) = edges_descend d"
  "edges_unique (d\<lparr>edge_contractions := x\<rparr>) = edges_unique d"
  "edges_stored (d\<lparr>edge_contractions := x\<rparr>) = edges_stored d"
  "edges_descend (d\<lparr>edge_merges := y\<rparr>) = edges_descend d"
  "edges_unique (d\<lparr>edge_merges := y\<rparr>) = edges_unique d"
  "edges_stored (d\<lparr>edge_merges := y\<rparr>) = edges_stored d"
  by (simp_all add: edges_descend_def edges_unique_def edges_stored_def)










section \<open>What a call leaves of the graph\<close>

lemma edges_same_refl [simp]: "edges_same d d"
  by (simp add: edges_same_def)

lemma edges_same_dom: "edges_same d d' \<Longrightarrow> (nodes d' j = None) = (nodes d j = None)"
  by (simp add: edges_same_def)

lemma edges_same_trans:
  assumes "edges_same d d1" and "edges_same d1 d2"
  shows "edges_same d d2"
  unfolding edges_same_def
proof (intro conjI allI impI)
  show "node_counter d2 = node_counter d" using assms by (simp add: edges_same_def)
next
  fix j show "(nodes d2 j = None) = (nodes d j = None)"
    using assms by (simp add: edges_same_def)
next
  fix j n n2 assume n: "nodes d j = Some n" and n2: "nodes d2 j = Some n2"
  from edges_same_dom [OF assms(1), of j] n have "nodes d1 j \<noteq> None" by simp
  then obtain n1 where n1: "nodes d1 j = Some n1" by auto
  from assms(1) n n1 have "edges n1 = edges n" unfolding edges_same_def by blast
  moreover from assms(2) n1 n2 have "edges n2 = edges n1" unfolding edges_same_def by blast
  ultimately show "edges n2 = edges n" by simp
qed

lemma shrinks_refl [simp]: "shrinks d d"
  by (simp add: shrinks_def)

lemma shrinks_trans:
  assumes "shrinks d d1" and "shrinks d1 d2"
  shows "shrinks d d2"
  unfolding shrinks_def
proof (intro conjI allI impI)
  show "node_counter d2 = node_counter d" using assms by (simp add: shrinks_def)
next
  fix j n2 assume "nodes d2 j = Some n2"
  with assms(2) obtain n1 where n1: "nodes d1 j = Some n1" "edges n2 = edges n1 \<or> edges n2 = []"
    unfolding shrinks_def by blast
  with assms(1) obtain n where "nodes d j = Some n" "edges n1 = edges n \<or> edges n1 = []"
    unfolding shrinks_def by blast
  with n1 show "\<exists>n. nodes d j = Some n \<and> (edges n2 = edges n \<or> edges n2 = [])" by auto
qed

lemma edges_same_shrinks:
  assumes "edges_same d d'"
  shows "shrinks d d'"
  unfolding shrinks_def
proof (intro conjI allI impI)
  show "node_counter d' = node_counter d" using assms by (simp add: edges_same_def)
next
  fix j n' assume n': "nodes d' j = Some n'"
  with edges_same_dom [OF assms, of j] have "nodes d j \<noteq> None" by simp
  then obtain n where n: "nodes d j = Some n" by auto
  with assms n' have "edges n' = edges n" unfolding edges_same_def by blast
  with n show "\<exists>n. nodes d j = Some n \<and> (edges n' = edges n \<or> edges n' = [])" by simp
qed



lemma edges_same_put:
  "nodes d j = Some n \<Longrightarrow> edges n' = edges n \<Longrightarrow> edges_same d (put_node j n' d)"
  by (auto simp: edges_same_def put_node_def)

lemma shrinks_put_clear:
  "nodes d j = Some n \<Longrightarrow> shrinks d (put_node j (n\<lparr>edges := []\<rparr>) d)"
  by (auto simp: shrinks_def put_node_def)

lemma shrinks_erase: "shrinks d (d\<lparr>nodes := (nodes d)(i := None)\<rparr>)"
  by (auto simp: shrinks_def)

lemma inc_ref_edges_same: "inc_ref i d = Inr d' \<Longrightarrow> edges_same d d'"
  by (auto simp: inc_ref_def node_def split: if_splits option.splits intro!: edges_same_put)

lemma inc_refs_edges_same: "inc_refs is d = Inr d' \<Longrightarrow> edges_same d d'"
proof (induction "is" arbitrary: d)
  case Nil
  then show ?case by simp
next
  case (Cons i "is")
  then obtain d1 where "inc_ref i d = Inr d1" "inc_refs is d1 = Inr d'"
    by (auto split: sum.splits)
  with Cons.IH show ?case by (blast intro: edges_same_trans inc_ref_edges_same)
qed

lemma dec_ref_shrinks:
  "dec_ref i d = Inr d' \<Longrightarrow> shrinks d (d'::'a Detail)"
  "free_node i d = Inr d' \<Longrightarrow> shrinks d d'"
  "free_edges es d = Inr d' \<Longrightarrow> shrinks d d'"
proof (induction i d and i d and es d arbitrary: d' and d' and d'
       rule: dec_ref_free_node_free_edges.induct)
  case (1 index d)
  show ?case
  proof (cases "index = 0")
    case True
    with 1(2) show ?thesis by (simp add: dec_ref.simps)
  next
    case False
    from 1(2) False obtain n where n: "node d index = Inr n" "ref_count n \<noteq> 0"
      by (auto simp: dec_ref.simps [of index d] split: sum.splits if_splits)
    then have nd: "nodes d index = Some n"
      by (auto simp: node_def split: option.splits)
    let ?d1 = "put_node index (n\<lparr>ref_count := ref_count n - 1\<rparr>) d"
    have k: "shrinks d ?d1"
      by (rule edges_same_shrinks, rule edges_same_put [OF nd]) simp
    show ?thesis
    proof (cases "ref_count n - 1 = 0")
      case True
      with 1(2) False n have "free_node index ?d1 = Inr d'"
        by (simp add: dec_ref.simps [of index d])
      from 1(1) [OF False n(1) n(2) True this] k show ?thesis
        by (blast intro: shrinks_trans)
    next
      case F2: False
      with 1(2) False n have "d' = ?d1"
        by (simp add: dec_ref.simps [of index d])
      with k show ?thesis by simp
    qed
  qed
next
  case (2 index d)
  from 2(2) obtain n d1 where n: "nodes d index = Some n" "free_edges (edges n) d = Inr d1"
      "d' = d1\<lparr>nodes := (nodes d1)(index := None)\<rparr>"
    by (auto simp: free_node.simps [of index d] split: option.splits sum.splits)
  from 2(1) [OF n(1) n(2)] have "shrinks d d1" .
  with shrinks_erase [of d1 index] n(3) show ?case
    by (auto intro: shrinks_trans)
next
  case (3 d)
  then show ?case by simp
next
  case (4 edge rest d)
  from 4(3) obtain d1 where d1: "dec_ref (source edge) d = Inr d1" "free_edges rest d1 = Inr d'"
    by (auto split: sum.splits)
  from 4(1) [OF d1(1)] 4(2) [OF d1(1) d1(2)] show ?case
    by (blast intro: shrinks_trans)
qed

lemma compute_gradients_edges_same:
  "compute_gradients sp u e d = Inr d' \<Longrightarrow> edges_same d d'"
  by (cases sp)
     (auto simp: node_def split: sum.splits option.splits if_splits intro!: edges_same_put)

lemma sweep_edge_edges_same:
  assumes "sweep_edge u e d = Inr d'"
  shows "edges_same d d'"
proof (cases "special e")
  case None
  with assms show ?thesis
    by (auto simp: sweep_edge_def node_def split: sum.splits option.splits
             intro!: edges_same_put)
next
  case (Some sp)
  with assms have "compute_gradients sp u e d = Inr d'" by (simp add: sweep_edge_def)
  then show ?thesis by (rule compute_gradients_edges_same)
qed

lemma sweep_edges_frame:
  "sweep_edges fg u es d = Inr d' \<Longrightarrow> shrinks d d' \<and> (\<not> fg \<longrightarrow> edges_same d d')"
proof (induction es arbitrary: d)
  case Nil
  then show ?case by simp
next
  case (Cons e es)
  from Cons.prems(1) obtain d1 d2 where s: "sweep_edge u e d = Inr d1"
      "(if fg then dec_ref (source e) d1 else Inr d1) = Inr d2"
      "sweep_edges fg u es d2 = Inr d'"
    by (auto split: sum.splits)
  from s(1) have a: "edges_same d d1" by (rule sweep_edge_edges_same)
  from s(2) have b: "shrinks d1 d2 \<and> (\<not> fg \<longrightarrow> edges_same d1 d2)"
    by (auto split: if_splits intro: dec_ref_shrinks(1))
  from Cons.IH [OF s(3)] have c: "shrinks d2 d' \<and> (\<not> fg \<longrightarrow> edges_same d2 d')" .
  from a b c have "shrinks d d'"
    by (blast intro: edges_same_shrinks shrinks_trans)
  moreover from a b c have "\<not> fg \<longrightarrow> edges_same d d'"
    by (blast intro: edges_same_trans)
  ultimately show ?case by simp
qed

lemma sweep_target_frame:
  assumes "sweep_target fg u d = Inr d'"
  shows "shrinks d d' \<and> (\<not> fg \<longrightarrow> edges_same d d')"
proof -
  from assms obtain target where tg: "nodes d u = Some target"
    by (auto simp: sweep_target_def node_def split: option.splits sum.splits)
  let ?d0 = "if is_scalar target \<and> length (grad target) \<noteq> 1
             then put_node u (target\<lparr>grad := hsum (grad target)\<rparr>) d else d"
  from assms tg obtain d1 where d1: "sweep_edges fg u (edges target) ?d0 = Inr d1"
    and r: "(if fg then (case node d1 u of Inl e \<Rightarrow> Inl e
                        | Inr t1 \<Rightarrow> dec_ref u (put_node u (t1\<lparr>edges := []\<rparr>) d1))
            else Inr d1) = Inr d'"
    by (auto simp: sweep_target_def node_def split: sum.splits)
  have k0: "edges_same d ?d0"
    using tg by (auto intro: edges_same_put)
  note k1 = sweep_edges_frame [OF d1]
  have k2: "shrinks d1 d' \<and> (\<not> fg \<longrightarrow> edges_same d1 d')"
  proof (cases fg)
    case True
    with r obtain t1 where t1: "nodes d1 u = Some t1"
        "dec_ref u (put_node u (t1\<lparr>edges := []\<rparr>) d1) = Inr d'"
      by (auto simp: node_def split: option.splits sum.splits)
    from shrinks_put_clear [OF t1(1)] dec_ref_shrinks(1) [OF t1(2)] True show ?thesis
      by (blast intro: shrinks_trans)
  next
    case False
    with r show ?thesis by simp
  qed
  from k0 k1 k2 have "shrinks d d'"
    by (blast intro: edges_same_shrinks shrinks_trans)
  moreover from k0 k1 k2 have "\<not> fg \<longrightarrow> edges_same d d'"
    by (blast intro: edges_same_trans)
  ultimately show ?thesis by simp
qed

lemma sweep_frame:
  "sweep fg us d = Inr d' \<Longrightarrow> shrinks d d' \<and> (\<not> fg \<longrightarrow> edges_same d d')"
proof (induction us arbitrary: d)
  case Nil
  then show ?case by simp
next
  case (Cons u us)
  from Cons.prems(1) obtain d1 where s: "sweep_target fg u d = Inr d1" "sweep fg us d1 = Inr d'"
    by (auto split: sum.splits)
  note a = sweep_target_frame [OF s(1)] and b = Cons.IH [OF s(2)]
  from a b have "shrinks d d'" by (blast intro: shrinks_trans)
  moreover from a b have "\<not> fg \<longrightarrow> edges_same d d'" by (blast intro: edges_same_trans)
  ultimately show ?case by simp
qed

lemma backward_frame:
  assumes "backward fg d = Inr d'"
  shows "shrinks d d' \<and> (\<not> fg \<longrightarrow> edges_same d d')"
proof -
  from assms obtain d1 d2 where a: "(if fg then inc_refs (sweep_order d) d else Inr d) = Inr d1"
    and b: "sweep fg (sweep_order d) d1 = Inr d2"
    and c: "node_counter d' = node_counter d2" "nodes d' = nodes d2"
    by (auto simp: backward_def split: sum.splits if_splits)
  from a have 1: "edges_same d d1" by (auto split: if_splits intro: inc_refs_edges_same)
  note 2 = sweep_frame [OF b]
  from c have 3: "edges_same d2 d'" by (simp add: edges_same_def)
  from 1 2 3 have "shrinks d d'"
    by (blast intro: edges_same_shrinks shrinks_trans)
  moreover from 1 2 3 have "\<not> fg \<longrightarrow> edges_same d d'"
    by (blast intro: edges_same_trans)
  ultimately show ?thesis by simp
qed








section \<open>Every call keeps the graph in order\<close>


lemma slot_invariants [simp]:
  "edges_descend (d\<lparr>scatter_gather_index := x\<rparr>) = edges_descend d"
  "edges_unique (d\<lparr>scatter_gather_index := x\<rparr>) = edges_unique d"
  "edges_stored (d\<lparr>scatter_gather_index := x\<rparr>) = edges_stored d"
  "ids_issued (d\<lparr>scatter_gather_index := x\<rparr>) = ids_issued d"
  by (simp_all add: edges_descend_def edges_unique_def edges_stored_def ids_issued_def)
































lemma observe_Inr:
  assumes "observe f r = Some (Inr v)"
  shows "\<exists>x. r = Some (Inr x) \<and> f x = v"
proof -
  from assms obtain z where z: "r = Some z" "map_sum id f z = Inr v"
    by (cases r) (auto simp: observe_def)
  then show ?thesis by (cases z) auto
qed





section \<open>The sweep computes what the claim says\<close>

lemma follows_refl: "follows x x (\<lambda>u. False) (\<lambda>u. grad_at u x)"
  by (simp add: follows_def grad_at_def)

lemma follows_trans:
  assumes "follows x x1 c1 G1" and "follows x1 x2 c2 G2"
  shows "follows x x2 (\<lambda>u. c1 u \<or> c2 u) G2"
  unfolding follows_def
proof (intro allI impI)
  fix u n2 assume "nodes x2 u = Some n2"
  with assms(2) obtain n1 where n1: "nodes x1 u = Some n1" "node_size n2 = node_size n1"
      "label n2 = label n1" "edges n2 = (if c2 u then [] else edges n1)" "grad n2 = G2 u"
    unfolding follows_def by blast
  from assms(1) n1(1) obtain n where n: "nodes x u = Some n" "node_size n1 = node_size n"
      "label n1 = label n" "edges n1 = (if c1 u then [] else edges n)"
    unfolding follows_def by blast
  with n1 show "\<exists>n. nodes x u = Some n \<and> node_size n2 = node_size n \<and> label n2 = label n
                  \<and> edges n2 = (if c1 u \<or> c2 u then [] else edges n) \<and> grad n2 = G2 u"
    by auto
qed

lemma follows_grads:
  assumes "follows x x' c G" and "\<And>u. nodes x' u \<noteq> None \<Longrightarrow> G u = G' u"
  shows "follows x x' c G'"
  using assms unfolding follows_def by fastforce

lemma follows_kept:
  assumes "follows x x' (\<lambda>u. False) G" and "nodes x' u \<noteq> None"
  shows "nodes x u \<noteq> None" and "edges_at u x' = edges_at u x" and "grad_at u x' = G u"
  using assms unfolding follows_def edges_at_def grad_at_def by fastforce+

lemma follows_put_ref:
  "nodes x j = Some n \<Longrightarrow>
   follows x (put_node j (n\<lparr>ref_count := r\<rparr>) x) (\<lambda>u. False) (\<lambda>u. grad_at u x)"
  by (auto simp: follows_def put_node_def grad_at_def)

lemma follows_erase:
  "follows x (x\<lparr>nodes := (nodes x)(i := None)\<rparr>) (\<lambda>u. False) (\<lambda>u. grad_at u x)"
  by (auto simp: follows_def grad_at_def)

lemma follows_same:
  assumes "follows x x1 (\<lambda>u. False) (\<lambda>u. grad_at u x)"
    and "follows x1 x2 (\<lambda>u. False) (\<lambda>u. grad_at u x1)"
  shows "follows x x2 (\<lambda>u. False) (\<lambda>u. grad_at u x)"
proof -
  from follows_trans [OF assms] have "follows x x2 (\<lambda>u. False) (\<lambda>u. grad_at u x1)" by simp
  then show ?thesis
  proof (rule follows_grads)
    fix u assume "nodes x2 u \<noteq> None"
    from follows_kept(1) [OF assms(2) this] have "nodes x1 u \<noteq> None" .
    from follows_kept(3) [OF assms(1) this] show "grad_at u x1 = grad_at u x" .
  qed
qed

lemma dec_ref_follows:
  "dec_ref i d = Inr d' \<Longrightarrow> follows d (d'::'a Detail) (\<lambda>u. False) (\<lambda>u. grad_at u d)"
  "free_node i d = Inr d' \<Longrightarrow> follows d d' (\<lambda>u. False) (\<lambda>u. grad_at u d)"
  "free_edges es d = Inr d' \<Longrightarrow> follows d d' (\<lambda>u. False) (\<lambda>u. grad_at u d)"
proof (induction i d and i d and es d arbitrary: d' and d' and d'
       rule: dec_ref_free_node_free_edges.induct)
  case (1 index d)
  show ?case
  proof (cases "index = 0")
    case True
    with 1(2) show ?thesis by (simp add: dec_ref.simps follows_refl)
  next
    case False
    from 1(2) False obtain n where n: "node d index = Inr n" "ref_count n \<noteq> 0"
      by (auto simp: dec_ref.simps [of index d] split: sum.splits if_splits)
    then have nd: "nodes d index = Some n"
      by (auto simp: node_def split: option.splits)
    let ?d1 = "put_node index (n\<lparr>ref_count := ref_count n - 1\<rparr>) d"
    have k: "follows d ?d1 (\<lambda>u. False) (\<lambda>u. grad_at u d)"
      by (rule follows_put_ref [OF nd])
    show ?thesis
    proof (cases "ref_count n - 1 = 0")
      case True
      with 1(2) False n have "free_node index ?d1 = Inr d'"
        by (simp add: dec_ref.simps [of index d])
      from 1(1) [OF False n(1) n(2) True this] k show ?thesis
        by (rule follows_same [rotated])
    next
      case F2: False
      with 1(2) False n have "d' = ?d1"
        by (simp add: dec_ref.simps [of index d])
      with k show ?thesis by simp
    qed
  qed
next
  case (2 index d)
  from 2(2) obtain n d1 where n: "nodes d index = Some n" "free_edges (edges n) d = Inr d1"
      "d' = d1\<lparr>nodes := (nodes d1)(index := None)\<rparr>"
    by (auto simp: free_node.simps [of index d] split: option.splits sum.splits)
  from 2(1) [OF n(1) n(2)] have "follows d d1 (\<lambda>u. False) (\<lambda>u. grad_at u d)" .
  from follows_same [OF this follows_erase [of d1 index]] n(3) show ?case by simp
next
  case (3 d)
  then show ?case by (simp add: follows_refl)
next
  case (4 edge rest d)
  from 4(3) obtain d1 where d1: "dec_ref (source edge) d = Inr d1" "free_edges rest d1 = Inr d'"
    by (auto split: sum.splits)
  from follows_same [OF 4(1) [OF d1(1)] 4(2) [OF d1(1) d1(2)]] show ?case .
qed


lemma sweep_edge_grads:
  fixes x :: "'a::{zero,plus,times} Detail"
  assumes "sweep_edge t e x = Inr x1"
  shows "nodes x t \<noteq> None"
    and "(\<lambda>u. grad_at u x1)
         = (\<lambda>u. grad_at u x)(source e := pull_back e (grad_at t x) (grad_at (source e) x))"
    and "follows x x1 (\<lambda>u. False) (\<lambda>u. grad_at u x1)"
    and "nodes x1 u \<noteq> None \<longleftrightarrow> nodes x u \<noteq> None"
proof -
  have "\<exists>sn tn. nodes x (source e) = Some sn \<and> nodes x t = Some tn
        \<and> x1 = put_node (source e) (sn\<lparr>grad := pull_back e (grad tn) (grad sn)\<rparr>) x"
  proof (cases "special e")
    case None
    with assms show ?thesis
      by (auto simp: sweep_edge_def node_def pull_back_def split: option.splits)
  next
    case (Some sp)
    with assms have c: "compute_gradients sp t e x = Inr x1" by (simp add: sweep_edge_def)
    show ?thesis
    proof (cases sp)
      case (Gather offset msk sz perm)
      with c Some show ?thesis
        by (auto simp: node_def pull_back_def split: option.splits if_splits)
    next
      case (Scatter offset msk)
      with c Some show ?thesis
        by (auto simp: node_def pull_back_def split: option.splits)
    qed
  qed
  then obtain sn tn where n: "nodes x (source e) = Some sn" "nodes x t = Some tn"
    and x1: "x1 = put_node (source e) (sn\<lparr>grad := pull_back e (grad tn) (grad sn)\<rparr>) x"
    by blast
  from n show "nodes x t \<noteq> None" by simp
  from n show "(\<lambda>u. grad_at u x1)
         = (\<lambda>u. grad_at u x)(source e := pull_back e (grad_at t x) (grad_at (source e) x))"
    by (auto simp: x1 grad_at_def put_node_def)
  from n show "follows x x1 (\<lambda>u. False) (\<lambda>u. grad_at u x1)"
    by (auto simp: x1 follows_def grad_at_def put_node_def)
  from n show "nodes x1 u \<noteq> None \<longleftrightarrow> nodes x u \<noteq> None"
    by (auto simp: x1 put_node_def)
qed

lemma edges_grads_cong:
  assumes "G u = G' u" and "es \<noteq> [] \<longrightarrow> G t = G' t"
  shows "edges_grads t es G u = edges_grads t es G' u"
  using assms
proof (induction es arbitrary: G G')
  case Nil
  then show ?case by simp
next
  case (Cons e es)
  from Cons.prems have a: "G u = G' u" "G t = G' t" by simp_all
  let ?G = "G(source e := pull_back e (G t) (G (source e)))"
  let ?G' = "G'(source e := pull_back e (G' t) (G' (source e)))"
  have u: "?G u = ?G' u" using a by auto
  have t: "?G t = ?G' t" using a by auto
  have "edges_grads t es ?G u = edges_grads t es ?G' u"
  proof (rule Cons.IH)
    show "?G u = ?G' u" by (rule u)
    show "es \<noteq> [] \<longrightarrow> ?G t = ?G' t" using t by blast
  qed
  then show ?case by (simp only: edges_grads.simps)
qed

lemma target_grads_cong:
  assumes "G u = G' u" and "G t = G' t"
  shows "target_grads N t G u = target_grads N t G' u"
proof (cases "N t")
  case None
  with assms show ?thesis by (simp add: target_grads_def)
next
  case (Some tn)
  let ?c = "\<lambda>G. if node_size tn = 1 \<and> length (G t) \<noteq> 1 then G(t := hsum (G t)) else G"
  from assms have "?c G u = ?c G' u" "?c G t = ?c G' t" by simp_all
  from edges_grads_cong [of "?c G" u "?c G'" "edges tn" t] this Some show ?thesis
    by (simp add: target_grads_def)
qed

lemma target_grads_node:
  assumes "N t = Some tn" and "N' t = Some tn'" and "edges tn' = edges tn"
    and "node_size tn' = node_size tn"
  shows "target_grads N' t G = target_grads N t G"
  using assms by (simp add: target_grads_def)

lemma sweep_edges_grads:
  fixes x :: "'a::{zero,plus,times} Detail"
  assumes "sweep_edges fg t es x = Inr x'"
  shows "follows x x' (\<lambda>u. False) (edges_grads t es (\<lambda>u. grad_at u x))"
    and "\<not> fg \<Longrightarrow> nodes x' u \<noteq> None \<longleftrightarrow> nodes x u \<noteq> None"
    and "es \<noteq> [] \<Longrightarrow> nodes x t \<noteq> None"
  using assms
proof (induction es arbitrary: x)
  case Nil
  {
    case 1
    then show ?case by (simp add: follows_refl)
  next
    case 2
    then show ?case by simp
  next
    case 3
    then show ?case by simp
  }
next
  case (Cons e es)
  {
    case 1
    from 1 obtain x1 x2 where s: "sweep_edge t e x = Inr x1"
        "(if fg then dec_ref (source e) x1 else Inr x1) = Inr x2"
        "sweep_edges fg t es x2 = Inr x'"
      by (auto split: sum.splits)
    let ?G = "\<lambda>u. grad_at u x"
    let ?G1 = "?G(source e := pull_back e (?G t) (?G (source e)))"
    note e1 = sweep_edge_grads [OF s(1)]
    have f12: "follows x1 x2 (\<lambda>u. False) (\<lambda>u. grad_at u x1)"
      using s(2) by (auto split: if_splits intro: dec_ref_follows(1) follows_refl)
    note ih = Cons.IH(1) [OF s(3)]
    from follows_trans [OF follows_trans [OF e1(3) f12] ih]
    have f: "follows x x' (\<lambda>u. False) (edges_grads t es (\<lambda>u. grad_at u x2))" by simp
    show ?case
    proof (rule follows_grads [OF f])
      fix u assume u: "nodes x' u \<noteq> None"
      from follows_kept(1) [OF ih u] have u2: "nodes x2 u \<noteq> None" .
      from follows_kept(3) [OF f12 u2] have gu: "grad_at u x2 = grad_at u x1" .
      have gt: "es \<noteq> [] \<longrightarrow> grad_at t x2 = grad_at t x1"
      proof
        assume "es \<noteq> []"
        from Cons.IH(3) [OF this s(3)] have "nodes x2 t \<noteq> None" .
        from follows_kept(3) [OF f12 this] show "grad_at t x2 = grad_at t x1" .
      qed
      from edges_grads_cong [of "\<lambda>u. grad_at u x2" u "\<lambda>u. grad_at u x1" es t] gu gt
      have "edges_grads t es (\<lambda>u. grad_at u x2) u = edges_grads t es (\<lambda>u. grad_at u x1) u"
        by simp
      then show "edges_grads t es (\<lambda>u. grad_at u x2) u = edges_grads t (e # es) ?G u"
        by (simp add: e1(2))
    qed
  next
    case 2
    from 2 obtain x1 where s: "sweep_edge t e x = Inr x1" "sweep_edges fg t es x1 = Inr x'"
      by (auto split: sum.splits)
    from Cons.IH(2) [OF 2(1) s(2)] sweep_edge_grads(4) [OF s(1)] show ?case by simp
  next
    case 3
    from 3 obtain x1 where "sweep_edge t e x = Inr x1" by (auto split: sum.splits)
    from sweep_edge_grads(1) [OF this] show ?case .
  }
qed


lemma follows_grad_at:
  assumes "follows x x' c G" and "nodes x' u \<noteq> None"
  shows "grad_at u x' = G u" and "nodes x u \<noteq> None"
proof -
  from assms(2) obtain n' where n': "nodes x' u = Some n'" by auto
  with assms(1) obtain n where n: "nodes x u = Some n" "grad n' = G u"
    unfolding follows_def by blast
  from n n' show "grad_at u x' = G u" "nodes x u \<noteq> None" by (simp_all add: grad_at_def)
qed

lemma follows_cleared:
  assumes "follows x x' c G" and "\<And>u. c u = c' u"
  shows "follows x x' c' G"
  using assms unfolding follows_def by simp

lemma sweep_target_grads:
  fixes x :: "'a::{zero,plus,times} Detail"
  assumes "sweep_target fg t x = Inr x'"
  shows "nodes x t \<noteq> None"
    and "follows x x' (\<lambda>u. fg \<and> u = t) (target_grads (nodes x) t (\<lambda>u. grad_at u x))"
    and "\<not> fg \<Longrightarrow> nodes x' u \<noteq> None \<longleftrightarrow> nodes x u \<noteq> None"
proof -
  from assms obtain tn where tn: "nodes x t = Some tn"
    by (auto simp: sweep_target_def node_def split: option.splits sum.splits)
  let ?G = "\<lambda>u. grad_at u x"
  let ?x0 = "if is_scalar tn \<and> length (grad tn) \<noteq> 1
             then put_node t (tn\<lparr>grad := hsum (grad tn)\<rparr>) x else x"
  let ?H = "if node_size tn = 1 \<and> length (?G t) \<noteq> 1 then ?G(t := hsum (?G t)) else ?G"
  from assms tn obtain x1 where x1: "sweep_edges fg t (edges tn) ?x0 = Inr x1"
    and r: "(if fg then (case node x1 t of Inl e \<Rightarrow> Inl e
                        | Inr t1 \<Rightarrow> dec_ref t (put_node t (t1\<lparr>edges := []\<rparr>) x1))
            else Inr x1) = Inr x'"
    by (auto simp: sweep_target_def node_def split: sum.splits)
  from tn show "nodes x t \<noteq> None" by simp
  have g0: "(\<lambda>u. grad_at u ?x0) = ?H"
    using tn by (auto simp: grad_at_def put_node_def is_scalar_def)
  have f0: "follows x ?x0 (\<lambda>u. False) (\<lambda>u. grad_at u ?x0)"
    using tn by (auto simp: follows_def grad_at_def put_node_def)
  have d0: "nodes ?x0 u \<noteq> None \<longleftrightarrow> nodes x u \<noteq> None" for u
    using tn by (auto simp: put_node_def)
  have tg: "target_grads (nodes x) t ?G = edges_grads t (edges tn) ?H"
    by (simp only: target_grads_def tn option.case)
  from sweep_edges_grads(1) [OF x1]
  have f1: "follows ?x0 x1 (\<lambda>u. False) (target_grads (nodes x) t ?G)"
    by (simp only: g0 tg)
  from follows_trans [OF f0 f1]
  have f01: "follows x x1 (\<lambda>u. False) (target_grads (nodes x) t ?G)" by simp
  show "follows x x' (\<lambda>u. fg \<and> u = t) (target_grads (nodes x) t ?G)"
  proof (cases fg)
    case False
    with r have "x' = x1" by simp
    with f01 False show ?thesis by (auto intro: follows_cleared)
  next
    case True
    with r obtain t1 where t1: "nodes x1 t = Some t1"
        "dec_ref t (put_node t (t1\<lparr>edges := []\<rparr>) x1) = Inr x'"
      by (auto simp: node_def split: option.splits sum.splits)
    let ?x2 = "put_node t (t1\<lparr>edges := []\<rparr>) x1"
    have f12: "follows x1 ?x2 (\<lambda>u. u = t) (\<lambda>u. grad_at u x1)"
      using t1(1) by (auto simp: follows_def grad_at_def put_node_def)
    have g2: "grad_at u ?x2 = grad_at u x1" for u
      using t1(1) by (auto simp: grad_at_def put_node_def)
    from dec_ref_follows(1) [OF t1(2)]
    have f23: "follows ?x2 x' (\<lambda>u. False) (\<lambda>u. grad_at u x1)" by (simp only: g2)
    from follows_trans [OF f12 f23]
    have f13: "follows x1 x' (\<lambda>u. u = t) (\<lambda>u. grad_at u x1)" by simp
    from follows_trans [OF f01 f13]
    have "follows x x' (\<lambda>u. u = t) (\<lambda>u. grad_at u x1)" by simp
    then have "follows x x' (\<lambda>u. u = t) (target_grads (nodes x) t ?G)"
    proof (rule follows_grads)
      fix u assume "nodes x' u \<noteq> None"
      then obtain n' where n': "nodes x' u = Some n'" by auto
      with f13 obtain n1 where "nodes x1 u = Some n1" unfolding follows_def by blast
      with f01 show "grad_at u x1 = target_grads (nodes x) t ?G u"
        unfolding follows_def by (auto simp: grad_at_def)
    qed
    with True show ?thesis by (auto intro: follows_cleared)
  qed
  show "nodes x' u \<noteq> None \<longleftrightarrow> nodes x u \<noteq> None" if "\<not> fg"
  proof -
    from that r have "x' = x1" by simp
    with sweep_edges_grads(2) [OF x1 that, of u] d0 [of u] show ?thesis by simp
  qed
qed

lemma sweep_follows:
  fixes x :: "'a::{zero,plus,times} Detail"
  assumes "sweep fg ts x = Inr x'" and "distinct ts"
    and "\<forall>u\<in>set ts. \<forall>n. nodes x u = Some n \<longrightarrow>
           (\<exists>n0. N u = Some n0 \<and> edges n0 = edges n \<and> node_size n0 = node_size n)"
    and "\<forall>u. nodes x u \<noteq> None \<longrightarrow> grad_at u x = G u"
  shows "follows x x' (\<lambda>u. fg \<and> u \<in> set ts) (sweep_grads N ts G)"
  using assms
proof (induction ts arbitrary: x G)
  case Nil
  then have "x' = x" by simp
  have "follows x x (\<lambda>u. False) G"
    by (rule follows_grads [OF follows_refl]) (simp add: Nil.prems(4))
  then show ?case by (simp add: \<open>x' = x\<close>)
next
  case (Cons t ts)
  from Cons.prems(1) obtain x1 where x1: "sweep_target fg t x = Inr x1"
      "sweep fg ts x1 = Inr x'"
    by (auto split: sum.splits)
  let ?G = "\<lambda>u. grad_at u x"
  note st = sweep_target_grads(1,2) [OF x1(1)]
  from st(1) obtain tn where tn: "nodes x t = Some tn" by auto
  with Cons.prems(3) obtain n0 where n0: "N t = Some n0" "edges n0 = edges tn"
      "node_size n0 = node_size tn" by auto
  have tg: "target_grads (nodes x) t = target_grads N t"
    using n0 tn by (auto simp: target_grads_def)
  let ?G1 = "target_grads N t G"
  have f1: "follows x x1 (\<lambda>u. fg \<and> u = t) ?G1"
  proof (rule follows_grads [OF st(2)])
    fix u assume "nodes x1 u \<noteq> None"
    then obtain n1 where "nodes x1 u = Some n1" by auto
    with st(2) have "nodes x u \<noteq> None" unfolding follows_def by fastforce
    with Cons.prems(4) st(1) have "?G u = G u" "?G t = G t" by simp_all
    from target_grads_cong [OF this] show "target_grads (nodes x) t ?G u = ?G1 u"
      by (simp add: tg)
  qed
  from Cons.prems(2) have dt: "distinct ts" and nt: "t \<notin> set ts" by simp_all
  have p3: "\<forall>u\<in>set ts. \<forall>n. nodes x1 u = Some n \<longrightarrow>
           (\<exists>n0. N u = Some n0 \<and> edges n0 = edges n \<and> node_size n0 = node_size n)"
  proof (intro ballI allI impI)
    fix u n1 assume u: "u \<in> set ts" and n1: "nodes x1 u = Some n1"
    with nt have "u \<noteq> t" by auto
    with f1 n1 obtain n where n: "nodes x u = Some n" "node_size n1 = node_size n"
        "edges n1 = edges n"
      unfolding follows_def by fastforce
    with Cons.prems(3) u obtain m where "N u = Some m" "edges m = edges n"
        "node_size m = node_size n" by fastforce
    with n show "\<exists>n0. N u = Some n0 \<and> edges n0 = edges n1 \<and> node_size n0 = node_size n1"
      by simp
  qed
  have p4: "\<forall>u. nodes x1 u \<noteq> None \<longrightarrow> grad_at u x1 = ?G1 u"
    using follows_grad_at(1) [OF f1] by blast
  from Cons.IH [OF x1(2) dt p3 p4]
  have f2: "follows x1 x' (\<lambda>u. fg \<and> u \<in> set ts) (sweep_grads N ts ?G1)" .
  from follows_trans [OF f1 f2]
  have "follows x x' (\<lambda>u. (fg \<and> u = t) \<or> (fg \<and> u \<in> set ts)) (sweep_grads N ts ?G1)" .
  then have "follows x x' (\<lambda>u. fg \<and> u \<in> set (t # ts)) (sweep_grads N ts ?G1)"
    by (rule follows_cleared) auto
  then show ?case by simp
qed

lemma inc_refs_follows:
  "inc_refs is d = Inr d' \<Longrightarrow> follows d d' (\<lambda>u. False) (\<lambda>u. grad_at u d)"
proof (induction "is" arbitrary: d)
  case Nil
  then show ?case by (simp add: follows_refl)
next
  case (Cons i "is")
  then obtain d1 where d1: "inc_ref i d = Inr d1" "inc_refs is d1 = Inr d'"
    by (auto split: sum.splits)
  from d1(1) have "follows d d1 (\<lambda>u. False) (\<lambda>u. grad_at u d)"
    by (auto simp: inc_ref_def node_def follows_refl split: if_splits option.splits
             intro: follows_put_ref)
  from follows_same [OF this Cons.IH [OF d1(2)]] show ?case .
qed

lemma backward_follows:
  fixes d :: "'a::{zero,plus,times} Detail"
  assumes "backward fg d = Inr d'"
  shows "follows d d' (\<lambda>u. fg \<and> u \<in> scheduled d)
           (sweep_grads (nodes d) (sweep_order d) (\<lambda>u. grad_at u d))"
proof -
  from assms obtain d1 d2 where a: "(if fg then inc_refs (sweep_order d) d else Inr d) = Inr d1"
    and b: "sweep fg (sweep_order d) d1 = Inr d2"
    and c: "nodes d' = nodes d2"
    by (auto simp: backward_def split: sum.splits if_splits)
  from a have f1: "follows d d1 (\<lambda>u. False) (\<lambda>u. grad_at u d)"
    by (auto split: if_splits intro: inc_refs_follows follows_refl)
  have dist: "distinct (sweep_order d)" by (simp add: sweep_order_def)
  from sweep_order_descending [of d] have st: "set (sweep_order d) = scheduled d" by simp
  have p3: "\<forall>u\<in>set (sweep_order d). \<forall>n. nodes d1 u = Some n \<longrightarrow>
           (\<exists>n0. nodes d u = Some n0 \<and> edges n0 = edges n \<and> node_size n0 = node_size n)"
    using f1 unfolding follows_def by fastforce
  have p4: "\<forall>u. nodes d1 u \<noteq> None \<longrightarrow> grad_at u d1 = grad_at u d"
    using follows_grad_at(1) [OF f1] by blast
  from sweep_follows [OF b dist p3 p4]
  have f2: "follows d1 d2 (\<lambda>u. fg \<and> u \<in> scheduled d)
              (sweep_grads (nodes d) (sweep_order d) (\<lambda>u. grad_at u d))"
    by (simp add: st)
  from follows_trans [OF f1 f2] have "follows d d2 (\<lambda>u. fg \<and> u \<in> scheduled d)
              (sweep_grads (nodes d) (sweep_order d) (\<lambda>u. grad_at u d))" by simp
  then show ?thesis unfolding follows_def c .
qed


lemma fan_in_seeded_reached:
  "do_calls 0 [Append_leaf 1, Append_leaf 1, Append_2 ''add'' 1 1 2 [2] [3], Set_gradient 3 [1]]
     Detail_new = Some (Inr fan_in_seeded)"
  by (simp add: fan_in_seeded_def leaf_node_def Detail_new_def append_leaf_def append_node_def
      inc_ref_def node_def put_node_def Node_new_def append_2_def append_edge_def drop_index_def
      has_special_def degree_def Node_append_edge_def Edge_weight_def zero_def Let_def
      fun_upd_twist set_gradient_def dfs.simps insert_commute)

text \<open>
  C3. \<open>backward\<close> sweeps the scheduled indices in strictly descending order, and what a
  returning \<open>backward\<close> leaves in the store is what the sweep of the claim computes on
  the gradients: target after target in that order, at each target first the horizontal
  sum in place of a gradient that is not of size one when the node has size one, then
  every edge of the target in the order of its list, an edge that is not special setting
  the gradient of its source to \<open>safe_fmadd weight (grad target) (grad source)\<close>. Every
  node in the store afterwards was there before, with its size and label, with its edges
  (none, with \<open>free_graph\<close>, for a scheduled node) and with the gradient the sweep
  computes; without \<open>free_graph\<close> no node is erased; the scheduled set is empty. The
  equations of the steps follow. When every edge names a source below its node, every
  scheduled consumer of a target is swept before the target, and sweeping the indices
  below a target leaves the gradient of the target as it was when the target was swept:
  no contribution arrives late.
\<close>

theorem backward_descending_sweep:
  fixes d x :: "'a::{zero,plus,times} Detail"
  shows "sorted_wrt (\<lambda>a b. b < a) (sweep_order d) \<and> set (sweep_order d) = scheduled d
    \<and> (backward fg d = Inr d' \<longrightarrow>
         scheduled d' = {}
         \<and> (\<forall>u n'. nodes d' u = Some n' \<longrightarrow>
               (\<exists>n. nodes d u = Some n \<and> node_size n' = node_size n \<and> label n' = label n
                    \<and> edges n' = (if fg \<and> u \<in> scheduled d then [] else edges n)
                    \<and> grad n' = sweep_grads (nodes d) (sweep_order d) (\<lambda>v. grad_at v d) u))
         \<and> (\<not> fg \<longrightarrow> (\<forall>u. (nodes d' u = None) = (nodes d u = None))))
    \<and> (special e = None \<longrightarrow> pull_back e gt gs = safe_fmadd (weight e) gt gs)
    \<and> (backward fg d = Inr d' \<longrightarrow>
         (\<exists>d0 d1. (if fg then inc_refs (sweep_order d) d else Inr d) = Inr d0
                 \<and> sweep fg (sweep_order d) d0 = Inr d1
                 \<and> nodes d' = nodes d1 \<and> scheduled d' = {}))
    \<and> sweep fg (t # rest) x =
         (case sweep_target fg t x of Inl err \<Rightarrow> Inl err | Inr x1 \<Rightarrow> sweep fg rest x1)
    \<and> (nodes x t = Some tn \<longrightarrow>
         sweep_target False t x =
           sweep_edges False t (edges tn)
             (if node_size tn = 1 \<and> length (grad tn) \<noteq> 1
              then put_node t (tn\<lparr>grad := hsum (grad tn)\<rparr>) x else x))
    \<and> (special e = None \<and> nodes x (source e) = Some sn \<and> nodes x t = Some tn \<longrightarrow>
         sweep_edge t e x =
           Inr (put_node (source e)
                  (sn\<lparr>grad := safe_fmadd (weight e) (grad tn) (grad sn)\<rparr>) x))
    \<and> (edges_descend d \<and> sweep_order d = pre @ t # post \<and> c \<in> scheduled d
         \<and> nodes d c = Some cn \<and> e \<in> set (edges cn) \<and> source e = t \<longrightarrow> c \<in> set pre)
    \<and> (edges_descend x \<and> (\<forall>u\<in>set post. u < t) \<and> sweep fg post x = Inr x'
         \<and> nodes x' t = Some n' \<longrightarrow> (\<exists>n. nodes x t = Some n \<and> grad n' = grad n))"
proof -
  note 1 = sweep_order_descending [of d]
  have f: "scheduled d' = {}
         \<and> (\<forall>u n'. nodes d' u = Some n' \<longrightarrow>
               (\<exists>n. nodes d u = Some n \<and> node_size n' = node_size n \<and> label n' = label n
                    \<and> edges n' = (if fg \<and> u \<in> scheduled d then [] else edges n)
                    \<and> grad n' = sweep_grads (nodes d) (sweep_order d) (\<lambda>v. grad_at v d) u))
         \<and> (\<not> fg \<longrightarrow> (\<forall>u. (nodes d' u = None) = (nodes d u = None)))"
    if b: "backward fg d = Inr d'"
  proof -
    from b have s: "scheduled d' = {}"
      by (auto simp: backward_def split: sum.splits if_splits)
    from backward_follows [OF b]
    have g: "\<forall>u n'. nodes d' u = Some n' \<longrightarrow>
               (\<exists>n. nodes d u = Some n \<and> node_size n' = node_size n \<and> label n' = label n
                    \<and> edges n' = (if fg \<and> u \<in> scheduled d then [] else edges n)
                    \<and> grad n' = sweep_grads (nodes d) (sweep_order d) (\<lambda>v. grad_at v d) u)"
      unfolding follows_def .
    from backward_frame [OF b]
    have "\<not> fg \<longrightarrow> (\<forall>u. (nodes d' u = None) = (nodes d u = None))"
      by (auto simp: edges_same_def)
    with s g show ?thesis by blast
  qed
  have p: "special e = None \<longrightarrow> pull_back e gt gs = safe_fmadd (weight e) gt gs"
    by (simp add: pull_back_def)
  have 2: "backward fg d = Inr d' \<longrightarrow>
         (\<exists>d0 d1. (if fg then inc_refs (sweep_order d) d else Inr d) = Inr d0
                 \<and> sweep fg (sweep_order d) d0 = Inr d1
                 \<and> nodes d' = nodes d1 \<and> scheduled d' = {})"
    by (auto simp: backward_def split: sum.splits if_splits)
  have 3: "sweep fg (t # rest) x =
         (case sweep_target fg t x of Inl err \<Rightarrow> Inl err | Inr x1 \<Rightarrow> sweep fg rest x1)"
    by simp
  have 4: "nodes x t = Some tn \<longrightarrow>
         sweep_target False t x =
           sweep_edges False t (edges tn)
             (if node_size tn = 1 \<and> length (grad tn) \<noteq> 1
              then put_node t (tn\<lparr>grad := hsum (grad tn)\<rparr>) x else x)"
    by (auto simp: sweep_target_def node_def is_scalar_def split: sum.splits)
  have 5: "special e = None \<and> nodes x (source e) = Some sn \<and> nodes x t = Some tn \<longrightarrow>
         sweep_edge t e x =
           Inr (put_node (source e)
                  (sn\<lparr>grad := safe_fmadd (weight e) (grad tn) (grad sn)\<rparr>) x)"
    by (simp add: sweep_edge_def node_def)
  have 6: "edges_descend d \<and> sweep_order d = pre @ t # post \<and> c \<in> scheduled d
         \<and> nodes d c = Some cn \<and> e \<in> set (edges cn) \<and> source e = t \<longrightarrow> c \<in> set pre"
  proof (intro impI, elim conjE)
    assume ed: "edges_descend d" and so: "sweep_order d = pre @ t # post"
      and c: "c \<in> scheduled d" "nodes d c = Some cn" "e \<in> set (edges cn)" "source e = t"
    from ed c have lt: "t < c" unfolding edges_descend_def by blast
    from 1 so c(1) have "c \<in> set pre \<or> c = t \<or> c \<in> set post" by auto
    moreover from 1 so have "\<forall>u\<in>set post. u < t"
      by (simp add: sorted_wrt_append)
    ultimately show "c \<in> set pre" using lt by auto
  qed
  have 7: "edges_descend x \<and> (\<forall>u\<in>set post. u < t) \<and> sweep fg post x = Inr x'
         \<and> nodes x' t = Some n' \<longrightarrow> (\<exists>n. nodes x t = Some n \<and> grad n' = grad n)"
  proof (intro impI, elim conjE)
    assume "edges_descend x" "\<forall>u\<in>set post. u < t" "sweep fg post x = Inr x'"
      and n': "nodes x' t = Some n'"
    then have "kept_from t x x'" by (intro sweep_kept)
    with n' show "\<exists>n. nodes x t = Some n \<and> grad n' = grad n"
      unfolding kept_from_def by blast
  qed
  from f have f': "backward fg d = Inr d' \<longrightarrow>
         scheduled d' = {}
         \<and> (\<forall>u n'. nodes d' u = Some n' \<longrightarrow>
               (\<exists>n. nodes d u = Some n \<and> node_size n' = node_size n \<and> label n' = label n
                    \<and> edges n' = (if fg \<and> u \<in> scheduled d then [] else edges n)
                    \<and> grad n' = sweep_grads (nodes d) (sweep_order d) (\<lambda>v. grad_at v d) u))
         \<and> (\<not> fg \<longrightarrow> (\<forall>u. (nodes d' u = None) = (nodes d u = None)))"
    by blast
  show ?thesis
    apply (intro conjI)
    using 1 apply blast
    using 1 apply blast
    using f' apply blast
    using p apply blast
    using 2 apply blast
    using 3 apply blast
    using 4 apply blast
    using 5 apply blast
    using 6 apply blast
    using 7 apply blast
    done
qed


lemma sweep_order_fan_in_seeded: "sweep_order fan_in_seeded = [3, 2, 1]"
proof -
  have "rev (sorted_list_of_set {1, 2, 3::Index}) = [3, 2, 1]" by code_simp
  then show ?thesis by (simp add: sweep_order_def fan_in_seeded_def)
qed

theorem backward_descending_sweep_witness:
  "edges_descend broadcast_seeded
   \<and> sweep_order broadcast_seeded = [2, 1]
   \<and> observe (grad_at 1) (Some (backward False broadcast_seeded)) = Some (Inr [8])
   \<and> observe (grad_at 2) (Some (backward False broadcast_seeded)) = Some (Inr [1, 1, 1, 1])
   \<and> sweep_order fan_in_seeded = [3, 2, 1]
   \<and> observe (\<lambda>d. (grad_at 1 d, grad_at 2 d, grad_at 3 d, map source (edges_at 3 d)))
       (Some (backward True fan_in_seeded)) = Some (Inr ([2], [3], [1], []))
   \<and> observe (\<lambda>d. (grad_at 1 d, grad_at 2 d, grad_at 3 d, map source (edges_at 3 d)))
       (Some (backward False fan_in_seeded)) = Some (Inr ([2], [3], [1], [1, 2]))"
proof -
  let ?n1 = "\<lparr>label = quoted ''unnamed'', grad = [2, 2, 2, 2::int], edges = [],
              ref_count = 2, node_size = 1\<rparr>"
  let ?x1 = "put_node 1 ?n1 broadcast_seeded"
  let ?x2 = "put_node 1 (?n1\<lparr>grad := [8]\<rparr>) ?x1"
  have ed: "edges_descend broadcast_seeded"
    by (auto simp: edges_descend_def broadcast_seeded_def Edge_weight_def split: if_splits)
  have fm: "safe_fmadd [2, 2, 2, 2] [1, 1, 1, 1] [0] = [2, 2, 2, 2::int]" by code_simp
  have hs: "hsum [2, 2, 2, 2] = [8::int]" by code_simp
  have s1: "sweep_target False 2 broadcast_seeded = Inr ?x1"
    by (simp add: sweep_target_def sweep_edge_def node_def broadcast_seeded_def is_scalar_def
        Edge_weight_def fm put_node_def)
  have s2: "sweep_target False 1 ?x1 = Inr ?x2"
    by (simp add: sweep_target_def node_def broadcast_seeded_def is_scalar_def hs put_node_def)
  have sw: "sweep False [1] ?x1 = Inr ?x2"
    by (simp only: sweep.simps s2 sum.case)
  have bw: "backward False broadcast_seeded = Inr (?x2\<lparr>scheduled := {}\<rparr>)"
    by (simp only: backward_def sweep_order_broadcast_seeded sweep.simps s1 s2 sum.case if_False)
  have ed1: "edges_descend ?x1"
    by (auto simp: edges_descend_def broadcast_seeded_def Edge_weight_def put_node_def
        split: if_splits)
  have n2: "nodes ?x2 2 = Some \<lparr>label = ''mul'', grad = [1, 1, 1, 1],
                        edges = [Edge_weight 1 [2, 2, 2, 2]],
                        ref_count = 1, node_size = 4\<rparr>"
    by (simp add: put_node_def broadcast_seeded_def)
  have lt: "\<forall>u\<in>set [1::Index]. u < 2" by simp
  from backward_descending_sweep [where x = ?x1 and t = 2 and post = "[1]" and fg = False
      and x' = ?x2, THEN conjunct2, THEN conjunct2, THEN conjunct2, THEN conjunct2,
      THEN conjunct2, THEN conjunct2, THEN conjunct2, THEN conjunct2, THEN conjunct2]
    ed1 lt sw n2
  have "\<exists>n. nodes ?x1 2 = Some n
           \<and> grad \<lparr>label = ''mul'', grad = [1, 1, 1, 1::int],
                        edges = [Edge_weight 1 [2, 2, 2, 2]],
                        ref_count = 1, node_size = 4\<rparr> = grad n"
    by blast
  then have g2: "grad_at 2 ?x1 = [1, 1, 1, 1]" by (auto simp: grad_at_def)
  have g2': "grad_at 2 (?x2\<lparr>scheduled := {}\<rparr>) = grad_at 2 ?x1"
    by (simp add: grad_at_def put_node_def)
  have g1: "grad_at 1 (?x2\<lparr>scheduled := {}\<rparr>) = [8]"
    by (simp add: grad_at_def put_node_def)
  have a: "observe (grad_at 1) (Some (backward False broadcast_seeded)) = Some (Inr [8])"
      "observe (grad_at 2) (Some (backward False broadcast_seeded)) = Some (Inr [1, 1, 1, 1])"
    using g1 g2 g2' by (simp_all add: observe_def bw)
  have sg: "map (sweep_grads (nodes fan_in_seeded) [3, 2, 1] (\<lambda>v. grad_at v fan_in_seeded))
              [1, 2, 3] = [[2], [3], [1]]"
    by code_simp
  have sc: "(3::Index) \<in> scheduled fan_in_seeded" by (simp add: fan_in_seeded_def)
  have e3: "map source (edges_at 3 fan_in_seeded) = [1, 2]"
    by (simp add: fan_in_seeded_def edges_at_def Edge_weight_def)
  have sweep: "observe (\<lambda>d. (grad_at 1 d, grad_at 2 d, grad_at 3 d, map source (edges_at 3 d)))
       (Some (backward fg fan_in_seeded))
       = Some (Inr ([2], [3], [1], if fg then [] else [1, 2]))"
    if st: "observe (\<lambda>d. [nodes d 1 \<noteq> None, nodes d 2 \<noteq> None, nodes d 3 \<noteq> None])
              (Some (backward fg fan_in_seeded)) = Some (Inr [True, True, True])" for fg
  proof -
    from observe_Inr [OF st] obtain d' where d': "backward fg fan_in_seeded = Inr d'"
        "nodes d' 1 \<noteq> None" "nodes d' 2 \<noteq> None" "nodes d' 3 \<noteq> None"
      by auto
    from backward_descending_sweep [where d = fan_in_seeded and fg = fg and d' = d',
        THEN conjunct2, THEN conjunct2, THEN conjunct1] d'(1)
    have k: "\<forall>u n'. nodes d' u = Some n' \<longrightarrow>
               (\<exists>n. nodes fan_in_seeded u = Some n \<and> node_size n' = node_size n
                    \<and> label n' = label n
                    \<and> edges n' = (if fg \<and> u \<in> scheduled fan_in_seeded then [] else edges n)
                    \<and> grad n' = sweep_grads (nodes fan_in_seeded) (sweep_order fan_in_seeded)
                                  (\<lambda>v. grad_at v fan_in_seeded) u)"
      by blast
    have kk: "\<exists>n. nodes fan_in_seeded u = Some n
                 \<and> edges_at u d' = (if fg \<and> u \<in> scheduled fan_in_seeded then [] else edges n)
                 \<and> grad_at u d' = sweep_grads (nodes fan_in_seeded) [3, 2, 1]
                                   (\<lambda>v. grad_at v fan_in_seeded) u"
      if "nodes d' u \<noteq> None" for u
    proof -
      from that obtain n' where n': "nodes d' u = Some n'" by auto
      with k obtain n where "nodes fan_in_seeded u = Some n"
          "edges n' = (if fg \<and> u \<in> scheduled fan_in_seeded then [] else edges n)"
          "grad n' = sweep_grads (nodes fan_in_seeded) (sweep_order fan_in_seeded)
                                  (\<lambda>v. grad_at v fan_in_seeded) u"
        by blast
      with n' show ?thesis
        by (simp add: grad_at_def edges_at_def sweep_order_fan_in_seeded)
    qed
    have g: "grad_at u d' = sweep_grads (nodes fan_in_seeded) [3, 2, 1]
                              (\<lambda>v. grad_at v fan_in_seeded) u"
      if "nodes d' u \<noteq> None" for u
      using kk [OF that] by blast
    have ed: "edges_at 3 d' = (if fg then [] else edges_at 3 fan_in_seeded)"
      using kk [OF d'(4)] sc by (auto simp: edges_at_def)
    from sg g [OF d'(2)] g [OF d'(3)] g [OF d'(4)] ed e3 show ?thesis
      by (simp add: d'(1) observe_def)
  qed
  have st1: "observe (\<lambda>d. [nodes d 1 \<noteq> None, nodes d 2 \<noteq> None, nodes d 3 \<noteq> None])
              (Some (backward True fan_in_seeded)) = Some (Inr [True, True, True])"
    by code_simp
  have st2: "observe (\<lambda>d. [nodes d 1 \<noteq> None, nodes d 2 \<noteq> None, nodes d 3 \<noteq> None])
              (Some (backward False fan_in_seeded)) = Some (Inr [True, True, True])"
    by code_simp
  from sweep [OF st1]
  have b: "observe (\<lambda>d. (grad_at 1 d, grad_at 2 d, grad_at 3 d, map source (edges_at 3 d)))
       (Some (backward True fan_in_seeded)) = Some (Inr ([2], [3], [1], []))"
    by simp
  from sweep [OF st2]
  have c: "observe (\<lambda>d. (grad_at 1 d, grad_at 2 d, grad_at 3 d, map source (edges_at 3 d)))
       (Some (backward False fan_in_seeded)) = Some (Inr ([2], [3], [1], [1, 2]))"
    by simp
  from ed sweep_order_broadcast_seeded a sweep_order_fan_in_seeded b c show ?thesis by simp
qed

end
